theory Spec2Isabelle
  imports Main "HOL-Library.Word"
begin

section \<open>The Redis cache client of \<open>cache/redis_client.go\<close>\<close>

text \<open>
  A shallow embedding of \<open>redisClient\<close>: its configuration and \<open>Validate\<close>, the
  constructor \<open>NewRedisClient\<close>, the batched read \<open>GetMulti\<close>, the asynchronous writes
  \<open>SetAsync\<close> and \<open>Delete\<close>, \<open>Stop\<close>, and the conversion \<open>stringToBytes\<close>.

  Go strings are byte sequences and are modelled as \<open>string\<close> (Isabelle's \<open>char\<close> is a
  byte); a \<open>[]byte\<close> is a list of 8-bit words. Go's \<open>int\<close> is modelled as \<open>int\<close>: no
  arithmetic of this file can overflow on lengths of slices that fit in memory.
\<close>

subsection \<open>Strings, byte slices and \<open>stringToBytes\<close>\<close>

type_synonym byte = "8 word"
type_synonym addr = nat
type_synonym memory = "addr \<Rightarrow> byte"

text \<open>
  The run-time representation of a Go string is a header of two machine words, the
  address of its bytes and its length; that of a slice is a header of three words,
  address, length and capacity (Go's \<open>reflect.StringHeader\<close> and \<open>reflect.SliceHeader\<close>).
\<close>

record StringHeader =
  str_Data :: addr
  str_Len :: nat

record SliceHeader =
  sl_Data :: addr
  sl_Len :: nat
  sl_Cap :: nat

text \<open>What a string header and a slice header denote in a given memory.\<close>

definition string_contents :: "memory \<Rightarrow> StringHeader \<Rightarrow> byte list" where
  "string_contents mem h = map (\<lambda>i. mem (str_Data h + i)) [0..<str_Len h]"

definition slice_contents :: "memory \<Rightarrow> SliceHeader \<Rightarrow> byte list" where
  "slice_contents mem h = map (\<lambda>i. mem (sl_Data h + i)) [0..<sl_Len h]"

text \<open>
  \<open>struct { string; Cap int }{s, len(s)}\<close>: the anonymous struct of \<open>stringToBytes\<close>,
  as the machine words it occupies, the embedded string header first.
\<close>

definition struct_words :: "StringHeader \<Rightarrow> nat \<Rightarrow> nat list" where
  "struct_words s cap = [str_Data s, str_Len s, cap]"

text \<open>\<open>*(*[]byte)(unsafe.Pointer(&w))\<close>: the same words read as a slice header.\<close>

definition as_slice :: "nat list \<Rightarrow> SliceHeader" where
  "as_slice ws = \<lparr>sl_Data = ws ! 0, sl_Len = ws ! 1, sl_Cap = ws ! 2\<rparr>"

definition stringToBytes_hdr :: "StringHeader \<Rightarrow> SliceHeader" where
  "stringToBytes_hdr s = as_slice (struct_words s (str_Len s))"

text \<open>A string value laid out in memory at address \<open>a\<close>, and the header that refers to it.\<close>

definition place_string :: "addr \<Rightarrow> string \<Rightarrow> memory \<times> StringHeader" where
  "place_string a s =
     (\<lambda>p. if a \<le> p \<and> p < a + length s then of_char (s ! (p - a)) else 0,
      \<lparr>str_Data = a, str_Len = length s\<rparr>)"

text \<open>
  \<open>stringToBytes\<close> on values: the bytes seen through the slice that the cast yields for
  the string \<open>s\<close>.
\<close>

definition stringToBytes :: "string \<Rightarrow> byte list" where
  "stringToBytes s =
     (case place_string 0 s of (mem, h) \<Rightarrow> slice_contents mem (stringToBytes_hdr h))"

text \<open>The copying conversion \<open>[]byte(s)\<close>: a fresh slice holding the bytes of \<open>s\<close>.\<close>

definition bytes_of_string :: "string \<Rightarrow> byte list" where
  "bytes_of_string s = map of_char s"

subsection \<open>Errors\<close>

text \<open>
  Go's \<open>error\<close> values. The first two are the package's sentinel errors; the others
  stand for the errors of the collaborators (TLS configuration, the Redis driver) and for
  the errors of the spec's taxonomy (spec 7).
\<close>

datatype go_error =
    errRedisConfigNoEndpoint
  | errRedisMaxAsyncConcurrencyNotPositive
  | TLSConfigError string
  | BackendError string
  | SizeExceededError
  | QueueFullError
  | CancellationError

datatype go_panic = IndexOutOfRange | SliceBoundsOutOfRange

subsection \<open>\<open>RedisClientConfig\<close> and \<open>Validate\<close>\<close>

text \<open>
  The types \<open>flagext.StringSliceCSV\<close>, \<open>flagext.Secret\<close> and \<open>dstls.ClientConfig\<close> are
  declared outside the sources: they are type parameters \<open>'e\<close>, \<open>'p\<close> and \<open>'t\<close>, and the
  methods the client calls on them are parameters, collected in \<open>externals\<close> (\<open>'tc\<close> is
  \<open>*tls.Config\<close>). Durations are in nanoseconds.
\<close>

record ('e, 'p, 't) RedisClientConfig =
  Endpoint :: 'e
  Username :: string
  Password :: 'p
  DB :: int
  MasterName :: string
  DialTimeout :: int
  ReadTimeout :: int
  WriteTimeout :: int
  ConnectionPoolSize :: int
  MinIdleConnections :: int
  IdleTimeout :: int
  MaxConnectionAge :: int
  MaxItemSize :: int
  MaxAsyncConcurrency :: int
  MaxAsyncBufferSize :: int
  MaxGetMultiConcurrency :: int
  GetMultiBatchSize :: int
  TLSEnabled :: bool
  TLS :: 't

record ('e, 'p, 't, 'tc) externals =
  Endpoint_String :: "'e \<Rightarrow> string"
  Password_String :: "'p \<Rightarrow> string"
  GetTLSConfig :: "'t \<Rightarrow> go_error + 'tc"

definition Validate ::
  "('e, 'p, 't, 'tc) externals \<Rightarrow> ('e, 'p, 't) RedisClientConfig \<Rightarrow> go_error option" where
  "Validate ext c =
     (if Endpoint_String ext (Endpoint c) = [] then Some errRedisConfigNoEndpoint
      else if MaxAsyncConcurrency c \<le> 0 then Some errRedisMaxAsyncConcurrencyNotPositive
      else None)"

subsection \<open>The Redis driver\<close>

text \<open>\<open>redis.UniversalOptions\<close>, with the fields that \<open>NewRedisClient\<close> sets.\<close>

record 'tc UniversalOptions =
  opt_Addrs :: "string list"
  opt_Username :: string
  opt_Password :: string
  opt_DB :: int
  opt_MasterName :: string
  opt_DialTimeout :: int
  opt_ReadTimeout :: int
  opt_WriteTimeout :: int
  opt_PoolSize :: int
  opt_MinIdleConns :: int
  opt_MaxConnAge :: int
  opt_IdleTimeout :: int
  opt_TLSConfig :: "'tc option"

text \<open>\<open>strings.Split(s, ",")\<close>: the empty string splits into one empty field.\<close>

fun split_comma :: "string \<Rightarrow> string list" where
  "split_comma [] = [[]]"
| "split_comma (c # cs) =
     (if c = CHR '','' then [] # split_comma cs
      else case split_comma cs of
             w # ws \<Rightarrow> (c # w) # ws
           | [] \<Rightarrow> [[c]])"

text \<open>
  The calls that reach the server through the driver, and the driver handle
  (\<open>redis.UniversalClient\<close>) as far as this client observes it: the options it was made
  from, the write calls it has carried out, and whether it has been closed.
\<close>

datatype backend_op = OpSet string "byte list" int | OpDel string

record 'tc UniversalClient =
  conn_opts :: "'tc UniversalOptions"
  backendCalls :: "backend_op list"
  closed :: bool

definition NewUniversalClient :: "'tc UniversalOptions \<Rightarrow> 'tc UniversalClient" where
  "NewUniversalClient opts = \<lparr>conn_opts = opts, backendCalls = [], closed = False\<rparr>"

definition Close :: "'tc UniversalClient \<Rightarrow> go_error option \<times> 'tc UniversalClient" where
  "Close u =
     (if closed u then (Some (BackendError ''redis: client is closed''), u)
      else (None, u\<lparr>closed := True\<rparr>))"

text \<open>
  \<open>MGet(...).Result()\<close> returns \<open>([]interface{}, error)\<close>. \<open>GetMulti\<close> distinguishes
  three shapes of an element: a string, nil, and anything else.
\<close>

datatype redis_reply = RString string | RNil | ROther string

text \<open>
  The server's answer to the \<open>MGet\<close> call of the batch that starts at a given index of
  the request: an error or a list of replies. Answers to different calls are independent
  of each other.
\<close>

type_synonym backend = "nat \<Rightarrow> string list \<Rightarrow> go_error + redis_reply list"

subsection \<open>The base client and its asynchronous queue\<close>

text \<open>
  Modelled from the spec: \<open>baseClient\<close>, its queue and \<open>newBaseClient\<close> are not among the
  sources. The queue is a bounded buffer of deferred backend calls (spec 4.2); it counts
  the tasks it has accepted and the ones it has rejected.
\<close>

record asyncQueue =
  bufferSize :: int
  concurrency :: int
  queued :: "backend_op list"
  stopped :: bool
  enqueuedCount :: nat
  rejectedCount :: nat

record baseClient =
  maxItemSize :: "64 word"
  asyncQueue :: asyncQueue

definition newAsyncQueue :: "int \<Rightarrow> int \<Rightarrow> asyncQueue" where
  "newAsyncQueue bufSize workers =
     \<lparr>bufferSize = bufSize, concurrency = workers, queued = [], stopped = False,
      enqueuedCount = 0, rejectedCount = 0\<rparr>"

definition newBaseClient :: "64 word \<Rightarrow> int \<Rightarrow> int \<Rightarrow> baseClient" where
  "newBaseClient maxSize bufSize workers =
     \<lparr>maxItemSize = maxSize, asyncQueue = newAsyncQueue bufSize workers\<rparr>"

text \<open>
  Modelled from the spec (4.2): \<open>enqueue\<close> never blocks; it returns false when the queue
  is full or has been stopped, and every rejection is counted.
\<close>

definition enqueue :: "asyncQueue \<Rightarrow> backend_op \<Rightarrow> bool \<times> asyncQueue" where
  "enqueue q task =
     (if stopped q \<or> bufferSize q \<le> int (length (queued q))
      then (False, q\<lparr>rejectedCount := rejectedCount q + 1\<rparr>)
      else (True, q\<lparr>queued := queued q @ [task], enqueuedCount := enqueuedCount q + 1\<rparr>))"

text \<open>
  Modelled from the spec (4.2): \<open>stop\<close> makes the queue accept no new work; it is
  idempotent.
\<close>

definition stop :: "asyncQueue \<Rightarrow> asyncQueue" where
  "stop q = q\<lparr>stopped := True\<rparr>"

text \<open>Modelled from the spec (4.1): the size guard.\<close>

definition permits :: "64 word \<Rightarrow> byte list \<Rightarrow> bool" where
  "permits maxSize v = (maxSize = 0 \<or> length v \<le> unat maxSize)"

text \<open>
  Modelled from the spec (4.5): \<open>setAsync\<close> fails with a size-exceeded error, without
  enqueueing, when the size guard rejects the value; otherwise it attempts to enqueue the
  deferred call and fails with a queue-full error when the queue rejects it. \<open>delete\<close>
  enqueues in the same way, with no size check.
\<close>

definition setAsync :: "baseClient \<Rightarrow> byte list \<Rightarrow> backend_op \<Rightarrow> go_error option \<times> baseClient" where
  "setAsync b v task =
     (if \<not> permits (maxItemSize b) v then (Some SizeExceededError, b)
      else case enqueue (asyncQueue b) task of
             (True, q) \<Rightarrow> (None, b\<lparr>asyncQueue := q\<rparr>)
           | (False, q) \<Rightarrow> (Some QueueFullError, b\<lparr>asyncQueue := q\<rparr>))"

definition delete :: "baseClient \<Rightarrow> backend_op \<Rightarrow> go_error option \<times> baseClient" where
  "delete b task =
     (case enqueue (asyncQueue b) task of
        (True, q) \<Rightarrow> (None, b\<lparr>asyncQueue := q\<rparr>)
      | (False, q) \<Rightarrow> (Some QueueFullError, b\<lparr>asyncQueue := q\<rparr>))"

subsection \<open>The gate\<close>

text \<open>
  Modelled from the spec: the package \<open>gate\<close> is not among the sources. A gate is a
  counting admission limiter with a maximum number of permits (spec 4.3).
\<close>

record gate =
  maxConcurrent :: nat

definition gate_New :: "int \<Rightarrow> gate" where
  "gate_New n = \<lparr>maxConcurrent = nat n\<rparr>"

subsection \<open>\<open>redisClient\<close> and \<open>NewRedisClient\<close>\<close>

text \<open>
  The struct \<open>redisClient\<close>; \<open>getMultiGate\<close> is \<open>None\<close> for Go's nil interface value. The
  logger and the metrics registry are left out.
\<close>

record ('e, 'p, 't, 'tc) redisClient =
  base :: baseClient
  conn :: "'tc UniversalClient"
  config :: "('e, 'p, 't) RedisClientConfig"
  getMultiGate :: "gate option"

definition NewRedisClient ::
  "('e, 'p, 't, 'tc) externals \<Rightarrow> string \<Rightarrow> ('e, 'p, 't) RedisClientConfig \<Rightarrow>
   go_error + ('e, 'p, 't, 'tc) redisClient" where
  "NewRedisClient ext name cfg =
     (let opts =
        \<lparr>opt_Addrs = split_comma (Endpoint_String ext (Endpoint cfg)),
         opt_Username = Username cfg,
         opt_Password = Password_String ext (Password cfg),
         opt_DB = DB cfg,
         opt_MasterName = MasterName cfg,
         opt_DialTimeout = DialTimeout cfg,
         opt_ReadTimeout = ReadTimeout cfg,
         opt_WriteTimeout = WriteTimeout cfg,
         opt_PoolSize = ConnectionPoolSize cfg,
         opt_MinIdleConns = MinIdleConnections cfg,
         opt_MaxConnAge = MaxConnectionAge cfg,
         opt_IdleTimeout = IdleTimeout cfg,
         opt_TLSConfig = None\<rparr>
      in
      case (if TLSEnabled cfg
            then (case GetTLSConfig ext (TLS cfg) of
                    Inl err \<Rightarrow> Inl err
                  | Inr tlsClientConfig \<Rightarrow> Inr (opts\<lparr>opt_TLSConfig := Some tlsClientConfig\<rparr>))
            else Inr opts) of
        Inl err \<Rightarrow> Inl err
      | Inr opts' \<Rightarrow>
          (let c = \<lparr>base = newBaseClient (word_of_int (MaxItemSize cfg))
                              (MaxAsyncBufferSize cfg) (MaxAsyncConcurrency cfg),
                    conn = NewUniversalClient opts',
                    config = cfg,
                    getMultiGate = None\<rparr>
           in Inr (if MaxGetMultiConcurrency cfg > 0
                   then c\<lparr>getMultiGate := Some (gate_New (MaxGetMultiConcurrency cfg))\<rparr>
                   else c)))"

subsection \<open>\<open>GetMulti\<close>\<close>

text \<open>
  The state of one \<open>GetMulti\<close> call: the local map \<open>results\<close>, and what the call does to
  the world: the \<open>operations\<close> counter, the observations of the \<open>dataSize\<close> histogram,
  the key slices passed to \<open>MGet\<close> in the order of the calls, and the number of warnings
  logged. (The duration histogram depends on the clock and is left out.)
\<close>

record gm_state =
  results :: "string \<rightharpoonup> byte list"
  operations :: nat
  dataSize :: "nat list"
  mgetLog :: "string list list"
  warns :: nat

definition gm_init :: gm_state where
  "gm_init = \<lparr>results = Map.empty, operations = 0, dataSize = [], mgetLog = [], warns = 0\<rparr>"

text \<open>\<open>keys[startIndex:endIndex]\<close>, which panics when the bounds are out of range.\<close>

definition go_slice :: "'a list \<Rightarrow> nat \<Rightarrow> nat \<Rightarrow> go_panic + 'a list" where
  "go_slice xs i j =
     (if i \<le> j \<and> j \<le> length xs then Inr (take (j - i) (drop i xs))
      else Inl SliceBoundsOutOfRange)"

text \<open>
  The loop \<open>for i := 0; i < len(resp); i++\<close> over the replies of one batch, as a recursion
  over the replies still to visit and the keys from position \<open>i\<close> on. \<open>currentKeys[i]\<close>
  panics when the reply is longer than the batch. The accumulator is \<open>results\<close>,
  \<open>cacheHitBytes\<close> and the number of warnings logged.
\<close>

fun mergeLoop ::
  "string list \<Rightarrow> redis_reply list \<Rightarrow> (string \<rightharpoonup> byte list) \<times> nat \<times> nat \<Rightarrow>
   go_panic + ((string \<rightharpoonup> byte list) \<times> nat \<times> nat)" where
  "mergeLoop ks [] acc = Inr acc"
| "mergeLoop [] (r # rs) acc = Inl IndexOutOfRange"
| "mergeLoop (k # ks) (r # rs) (m, n, w) =
     (case r of
        RString val \<Rightarrow> mergeLoop ks rs (m(k \<mapsto> stringToBytes val), n + length val, w)
      | RNil \<Rightarrow> mergeLoop ks rs (m, n, w)
      | ROther d \<Rightarrow> mergeLoop ks rs (m, n, Suc w))"

text \<open>The function literal that \<open>GetMulti\<close> passes to \<open>doWithBatch\<close>.\<close>

definition getMultiBatch ::
  "backend \<Rightarrow> string list \<Rightarrow> nat \<Rightarrow> nat \<Rightarrow> gm_state \<Rightarrow> go_panic + (go_error option \<times> gm_state)" where
  "getMultiBatch MGet keys startIndex endIndex st =
     (let st1 = st\<lparr>operations := operations st + 1\<rparr> in
      case go_slice keys startIndex endIndex of
        Inl p \<Rightarrow> Inl p
      | Inr currentKeys \<Rightarrow>
          (let st2 = st1\<lparr>mgetLog := mgetLog st1 @ [currentKeys]\<rparr> in
           case MGet startIndex currentKeys of
             Inl err \<Rightarrow> Inr (None, st2\<lparr>warns := warns st2 + 1\<rparr>)
           | Inr resp \<Rightarrow>
               (case mergeLoop currentKeys resp (results st2, 0, 0) of
                  Inl p \<Rightarrow> Inl p
                | Inr (m, cacheHitBytes, w) \<Rightarrow>
                    Inr (None, st2\<lparr>results := m,
                                   dataSize := dataSize st2 @ [cacheHitBytes],
                                   warns := warns st2 + w\<rparr>))))"

subsection \<open>\<open>doWithBatch\<close>\<close>

text \<open>
  The caller's context, as far as a sequential run of one call observes it: whether the
  context is still live when the batch starting at a given index asks for its permit.
\<close>

type_synonym go_ctx = "nat \<Rightarrow> bool"

text \<open>
  Modelled from the spec: \<open>doWithBatch\<close> is not among the sources. The ranges
  \<open>(startIndex, endIndex)\<close> of the contiguous batches of at most \<open>batchSize\<close> indices that
  partition \<open>[i, totalSize)\<close>; the last batch may be smaller (spec 4.4).
\<close>

function batchRanges :: "nat \<Rightarrow> nat \<Rightarrow> nat \<Rightarrow> (nat \<times> nat) list" where
  "batchRanges i totalSize batchSize =
     (if batchSize = 0 \<or> totalSize \<le> i then []
      else (i, min (i + batchSize) totalSize) # batchRanges (i + batchSize) totalSize batchSize)"
  by pat_completeness auto
termination
  by (relation "measure (\<lambda>(i, t, b). t - i)") auto

text \<open>
  Modelled from the spec: for each batch in turn, acquire a permit of the gate (when there
  is one), then run the batch. Acquisition fails only by cancellation, and then grants
  nothing (spec 4.3); a cancelled call keeps what the completed batches have merged and
  reports no error (spec 5), so no further batch is started and the error collected so
  far is returned. With no gate every batch runs. The batches run concurrently in the
  code and meet only at the mutex that guards the merge; the model runs them one after
  the other in the order of dispatch. An error returned by a batch does not stop the
  others; the first one is returned once all batches are done (spec 4.4: the call
  returns only after every batch has completed).
\<close>

fun runBatches ::
  "go_ctx \<Rightarrow> gate option \<Rightarrow> (nat \<Rightarrow> nat \<Rightarrow> 's \<Rightarrow> go_panic + (go_error option \<times> 's)) \<Rightarrow>
   (nat \<times> nat) list \<Rightarrow> go_error option \<Rightarrow> 's \<Rightarrow> go_panic + (go_error option \<times> 's)" where
  "runBatches ctx ga f [] e s = Inr (e, s)"
| "runBatches ctx ga f ((i, j) # rs) e s =
     (if ga \<noteq> None \<and> \<not> ctx i then Inr (e, s)
      else case f i j s of
             Inl p \<Rightarrow> Inl p
           | Inr (e', s') \<Rightarrow> runBatches ctx ga f rs (if e = None then e' else e) s')"

text \<open>
  Modelled from the spec: \<open>doWithBatch(ctx, totalSize, batchSize, gate, f)\<close>. The spec
  requires \<open>batchSize > 0\<close> and says nothing about other values; the model then
  dispatches no batch, and every theorem about batches assumes a positive batch size.
\<close>

definition doWithBatch ::
  "go_ctx \<Rightarrow> int \<Rightarrow> int \<Rightarrow> gate option \<Rightarrow> (nat \<Rightarrow> nat \<Rightarrow> 's \<Rightarrow> go_panic + (go_error option \<times> 's)) \<Rightarrow>
   's \<Rightarrow> go_panic + (go_error option \<times> 's)" where
  "doWithBatch ctx totalSize batchSize ga f s =
     runBatches ctx ga f (batchRanges 0 (nat totalSize) (nat batchSize)) None s"

text \<open>\<open>GetMulti\<close>. The result is \<open>None\<close> for Go's nil map.\<close>

definition GetMulti ::
  "('e, 'p, 't, 'tc) redisClient \<Rightarrow> go_ctx \<Rightarrow> backend \<Rightarrow> string list \<Rightarrow>
   go_panic + ((string \<rightharpoonup> byte list) option \<times> gm_state)" where
  "GetMulti c ctx MGet keys =
     (if length keys = 0 then Inr (None, gm_init)
      else
        case doWithBatch ctx (int (length keys)) (GetMultiBatchSize (config c)) (getMultiGate c)
               (getMultiBatch MGet keys) gm_init of
          Inl p \<Rightarrow> Inl p
        | Inr (Some err, st) \<Rightarrow> Inr (None, st\<lparr>warns := warns st + 1\<rparr>)
        | Inr (None, st) \<Rightarrow> Inr (Some (results st), st))"

subsection \<open>\<open>SetAsync\<close>, \<open>Delete\<close> and \<open>Stop\<close>\<close>

text \<open>
  \<open>SetAsync\<close> hands \<open>setAsync\<close> the value and a function literal that calls the driver's
  \<open>Set\<close> with the key, the value and the ttl; \<open>Delete\<close> hands \<open>delete\<close> one that calls
  \<open>Del\<close>. The literals are the deferred calls \<open>OpSet\<close> and \<open>OpDel\<close>.
\<close>

definition SetAsync ::
  "('e, 'p, 't, 'tc) redisClient \<Rightarrow> string \<Rightarrow> byte list \<Rightarrow> int \<Rightarrow>
   go_error option \<times> ('e, 'p, 't, 'tc) redisClient" where
  "SetAsync c key v ttl =
     (case setAsync (base c) v (OpSet key v ttl) of (err, b) \<Rightarrow> (err, c\<lparr>base := b\<rparr>))"

definition Delete ::
  "('e, 'p, 't, 'tc) redisClient \<Rightarrow> string \<Rightarrow> go_error option \<times> ('e, 'p, 't, 'tc) redisClient" where
  "Delete c key =
     (case delete (base c) (OpDel key) of (err, b) \<Rightarrow> (err, c\<lparr>base := b\<rparr>))"

text \<open>\<open>Stop\<close>: stop the queue, then close the driver; an error of \<open>Close\<close> is only logged.\<close>

definition Stop :: "('e, 'p, 't, 'tc) redisClient \<Rightarrow> ('e, 'p, 't, 'tc) redisClient" where
  "Stop c =
     (let c1 = c\<lparr>base := (base c)\<lparr>asyncQueue := stop (asyncQueue (base c))\<rparr>\<rparr> in
      case Close (conn c1) of (err, u) \<Rightarrow> c1\<lparr>conn := u\<rparr>)"

subsection \<open>What a batch merges\<close>

text \<open>
  The entries that the loop of one batch writes, in the order of the positions: one for
  each position whose reply is a string. \<open>hitBytes\<close> is the loop's \<open>cacheHitBytes\<close> and
  \<open>unexpected\<close> the number of replies of an unexpected shape.
\<close>

fun hitsOf :: "string list \<Rightarrow> redis_reply list \<Rightarrow> (string \<times> byte list) list" where
  "hitsOf (k # ks) (RString s # rs) = (k, stringToBytes s) # hitsOf ks rs"
| "hitsOf (k # ks) (r # rs) = hitsOf ks rs"
| "hitsOf ks rs = []"

fun hitBytes :: "redis_reply list \<Rightarrow> nat" where
  "hitBytes [] = 0"
| "hitBytes (RString s # rs) = length s + hitBytes rs"
| "hitBytes (r # rs) = hitBytes rs"

fun unexpected :: "redis_reply list \<Rightarrow> nat" where
  "unexpected [] = 0"
| "unexpected (ROther d # rs) = Suc (unexpected rs)"
| "unexpected (r # rs) = unexpected rs"

definition putAll :: "('k \<rightharpoonup> 'v) \<Rightarrow> ('k \<times> 'v) list \<Rightarrow> ('k \<rightharpoonup> 'v)" where
  "putAll m kvs = foldl (\<lambda>m (k, v). m(k \<mapsto> v)) m kvs"

subsection \<open>The batches of a call\<close>

text \<open>
  The key slice of a range; the ranges that are dispatched before a permit acquisition
  fails; what one batch does to \<open>results\<close>; and the server's side of the contract of
  \<open>MGet\<close>: a reply is never longer than the list of keys it answers (spec 6: same length
  and order as the keys).
\<close>

definition batchKeys :: "string list \<Rightarrow> nat \<times> nat \<Rightarrow> string list" where
  "batchKeys keys r = take (snd r - fst r) (drop (fst r) keys)"

definition dispatched :: "go_ctx \<Rightarrow> gate option \<Rightarrow> (nat \<times> nat) list \<Rightarrow> (nat \<times> nat) list" where
  "dispatched ctx ga rs = takeWhile (\<lambda>r. ga = None \<or> ctx (fst r)) rs"

definition batchMerge ::
  "backend \<Rightarrow> string list \<Rightarrow> (string \<rightharpoonup> byte list) \<Rightarrow> nat \<times> nat \<Rightarrow> (string \<rightharpoonup> byte list)" where
  "batchMerge MGet keys m r =
     (case MGet (fst r) (batchKeys keys r) of
        Inl err \<Rightarrow> m
      | Inr resp \<Rightarrow> putAll m (hitsOf (batchKeys keys r) resp))"

definition repliesFit :: "backend \<Rightarrow> bool" where
  "repliesFit MGet = (\<forall>i ks resp. MGet i ks = Inr resp \<longrightarrow> length resp \<le> length ks)"

text \<open>
  The batches that a call dispatches; the entries one batch writes; and the string, if
  any, that the server replied at position \<open>p\<close> of a batch.
\<close>

definition batchesOf :: "('e, 'p, 't, 'tc) redisClient \<Rightarrow> go_ctx \<Rightarrow> string list \<Rightarrow> (nat \<times> nat) list" where
  "batchesOf c ctx keys =
     dispatched ctx (getMultiGate c)
       (batchRanges 0 (length keys) (nat (GetMultiBatchSize (config c))))"

definition batchHits :: "backend \<Rightarrow> string list \<Rightarrow> nat \<times> nat \<Rightarrow> (string \<times> byte list) list" where
  "batchHits MGet keys r =
     (case MGet (fst r) (batchKeys keys r) of
        Inl err \<Rightarrow> []
      | Inr resp \<Rightarrow> hitsOf (batchKeys keys r) resp)"

definition stringReply :: "backend \<Rightarrow> string list \<Rightarrow> nat \<times> nat \<Rightarrow> nat \<Rightarrow> string option" where
  "stringReply MGet keys r p =
     (case MGet (fst r) (batchKeys keys r) of
        Inl err \<Rightarrow> None
      | Inr resp \<Rightarrow>
          if p < length resp
          then (case resp ! p of RString s \<Rightarrow> Some s | RNil \<Rightarrow> None | ROther d \<Rightarrow> None)
          else None)"

subsection \<open>A sample client, server and request\<close>

text \<open>
  A configuration with batches of two keys and at most two concurrent batches, the
  client made from it, and a server that fails the call of the batch starting at index 2
  and otherwise replies a string for the key \<open>a\<close>, nil for \<open>b\<close> and an integer for any
  other key.
\<close>

definition exampleConfig :: "(string, string, unit) RedisClientConfig" where
  "exampleConfig =
     \<lparr>Endpoint = ''localhost:6379'', Username = '''', Password = '''', DB = 0, MasterName = '''',
      DialTimeout = 5000000000, ReadTimeout = 3000000000, WriteTimeout = 3000000000,
      ConnectionPoolSize = 100, MinIdleConnections = 10, IdleTimeout = 300000000000,
      MaxConnectionAge = 0, MaxItemSize = 4, MaxAsyncConcurrency = 50,
      MaxAsyncBufferSize = 2, MaxGetMultiConcurrency = 2, GetMultiBatchSize = 2,
      TLSEnabled = False, TLS = ()\<rparr>"

definition exampleExt :: "(string, string, unit, unit) externals" where
  "exampleExt = \<lparr>Endpoint_String = id, Password_String = id, GetTLSConfig = (\<lambda>t. Inr ())\<rparr>"

definition exampleClient :: "(string, string, unit, unit) redisClient" where
  "exampleClient = (case NewRedisClient exampleExt ''example'' exampleConfig of Inr c \<Rightarrow> c)"

definition exampleBackend :: backend where
  "exampleBackend i ks =
     (if i = 2 then Inl (BackendError ''i/o timeout'')
      else Inr (map (\<lambda>k. if k = ''a'' then RString ''x'' else if k = ''b'' then RNil else ROther ''42'') ks))"

text \<open>A server that answers by position: a string for the first key of a call, nil for the second.\<close>

definition positionalBackend :: backend where
  "positionalBackend i ks = Inr (take (length ks) [RString ''1'', RNil])"

section \<open>Properties\<close>

subsection \<open>\<open>stringToBytes\<close>\<close>

lemma slice_contents_cast:
  "slice_contents mem (stringToBytes_hdr h) = string_contents mem h"
  by (simp add: slice_contents_def string_contents_def stringToBytes_hdr_def as_slice_def struct_words_def)

lemma stringToBytes_eq: "stringToBytes s = bytes_of_string s"
  by (auto simp: stringToBytes_def place_string_def slice_contents_def stringToBytes_hdr_def
      as_slice_def struct_words_def bytes_of_string_def intro!: nth_equalityI)

lemma putAll_simps [simp]: "putAll m [] = m" "putAll m ((k, v) # kvs) = putAll (m(k \<mapsto> v)) kvs"
  by (simp_all add: putAll_def)

lemma mergeLoop_eq:
  "mergeLoop ks rs (m, n, w) =
     (if length rs \<le> length ks
      then Inr (putAll m (hitsOf ks rs), n + hitBytes rs, w + unexpected rs)
      else Inl IndexOutOfRange)"
proof (induction ks rs "(m, n, w)" arbitrary: m n w rule: mergeLoop.induct)
  case (3 k ks r rs m n w)
  then show ?case by (cases r) simp_all
qed simp_all

lemma dom_putAll: "dom (putAll m kvs) = dom m \<union> fst ` set kvs"
  by (induction kvs arbitrary: m) (auto simp: putAll_def)

lemma putAll_notin: "k \<notin> fst ` set kvs \<Longrightarrow> putAll m kvs k = m k"
  by (induction kvs arbitrary: m) auto

lemma putAll_Some:
  "putAll m kvs k = Some v \<Longrightarrow> m k = Some v \<or> (k, v) \<in> set kvs"
proof (induction kvs arbitrary: m)
  case Nil
  then show ?case by simp
next
  case (Cons kv kvs)
  obtain k' v' where kv: "kv = (k', v')" by (cases kv)
  from Cons.prems kv have "putAll (m(k' \<mapsto> v')) kvs k = Some v" by simp
  from Cons.IH[OF this] show ?case using kv by (auto split: if_splits)
qed

lemma putAll_distinct:
  "distinct (map fst kvs) \<Longrightarrow> (k, v) \<in> set kvs \<Longrightarrow> putAll m kvs k = Some v"
proof (induction kvs arbitrary: m)
  case Nil
  then show ?case by simp
next
  case (Cons kv kvs)
  obtain k' v' where kv: "kv = (k', v')" by (cases kv)
  show ?case
  proof (cases "(k, v) \<in> set kvs")
    case True
    with Cons kv show ?thesis by simp
  next
    case False
    with Cons.prems kv have "k' = k" "v' = v" "k \<notin> fst ` set kvs" by auto
    then show ?thesis using kv by (simp add: putAll_notin)
  qed
qed

lemma set_hitsOf:
  "set (hitsOf ks rs) = {(k, stringToBytes s) | k s. (k, RString s) \<in> set (zip ks rs)}"
  by (induction ks rs rule: hitsOf.induct) auto

subsection \<open>\<open>GetMulti\<close> on an empty request\<close>

text \<open>
  C8: \<open>GetMulti\<close> applied to an empty key sequence returns the nil map at once: no batch
  runs, so \<open>MGet\<close> is never called and no counter moves.
\<close>

theorem GetMulti_empty:
  "GetMulti c ctx MGet [] = Inr (None, gm_init) \<and> mgetLog gm_init = [] \<and> operations gm_init = 0"
  by (simp add: GetMulti_def gm_init_def)

subsection \<open>One batch, and the batches in turn\<close>

declare batchRanges.simps [simp del]

lemma getMultiBatch_eq:
  assumes "i \<le> j" "j \<le> length keys"
  shows "getMultiBatch MGet keys i j st =
     (case MGet i (batchKeys keys (i, j)) of
        Inl err \<Rightarrow>
          Inr (None, st\<lparr>operations := operations st + 1,
                         mgetLog := mgetLog st @ [batchKeys keys (i, j)],
                         warns := warns st + 1\<rparr>)
      | Inr resp \<Rightarrow>
          if length resp \<le> length (batchKeys keys (i, j))
          then Inr (None, st\<lparr>operations := operations st + 1,
                         mgetLog := mgetLog st @ [batchKeys keys (i, j)],
                         results := putAll (results st) (hitsOf (batchKeys keys (i, j)) resp),
                         dataSize := dataSize st @ [hitBytes resp],
                         warns := warns st + unexpected resp\<rparr>)
          else Inl IndexOutOfRange)"
  using assms
  by (simp add: getMultiBatch_def go_slice_def batchKeys_def mergeLoop_eq Let_def split: sum.splits)

lemma getMultiBatch_Inr:
  assumes "getMultiBatch MGet keys i j st = Inr (e, st')" "i \<le> j" "j \<le> length keys"
  shows "e = None \<and> results st' = batchMerge MGet keys (results st) (i, j)
       \<and> mgetLog st' = mgetLog st @ [batchKeys keys (i, j)]
       \<and> operations st' = operations st + 1"
  using assms
  by (auto simp: getMultiBatch_eq batchMerge_def split: sum.splits if_splits)

lemma getMultiBatch_total:
  assumes "i \<le> j" "j \<le> length keys" "repliesFit MGet"
  shows "\<exists>st'. getMultiBatch MGet keys i j st = Inr (None, st')"
  using assms
  by (auto simp: getMultiBatch_eq repliesFit_def split: sum.splits)

lemma runBatches_Inr:
  assumes "runBatches ctx ga (getMultiBatch MGet keys) rs e st = Inr (e', st')"
    and "\<forall>r\<in>set rs. fst r \<le> snd r \<and> snd r \<le> length keys"
  shows "e' = e \<and> results st' = foldl (batchMerge MGet keys) (results st) (dispatched ctx ga rs)
       \<and> mgetLog st' = mgetLog st @ map (batchKeys keys) (dispatched ctx ga rs)
       \<and> operations st' = operations st + length (dispatched ctx ga rs)"
  using assms
proof (induction rs arbitrary: e st)
  case Nil
  then show ?case by (simp add: dispatched_def)
next
  case (Cons r rs)
  obtain i j where r: "r = (i, j)" by (cases r)
  show ?case
  proof (cases "ga \<noteq> None \<and> \<not> ctx i")
    case True
    with Cons.prems r show ?thesis by (auto simp: dispatched_def)
  next
    case False
    with Cons.prems(1) r obtain e1 st1 where
      f: "getMultiBatch MGet keys i j st = Inr (e1, st1)" and
      rest: "runBatches ctx ga (getMultiBatch MGet keys) rs (if e = None then e1 else e) st1 = Inr (e', st')"
      by (auto split: sum.splits)
    from Cons.prems(2) r have ij: "i \<le> j" "j \<le> length keys" by auto
    from getMultiBatch_Inr[OF f ij] have
      e1: "e1 = None" and
      s1: "results st1 = batchMerge MGet keys (results st) (i, j)"
          "mgetLog st1 = mgetLog st @ [batchKeys keys (i, j)]"
          "operations st1 = operations st + 1"
      by auto
    from Cons.prems(2) have "\<forall>r\<in>set rs. fst r \<le> snd r \<and> snd r \<le> length keys" by simp
    from Cons.IH[OF rest this] e1 s1 False r show ?thesis
      by (auto simp: dispatched_def)
  qed
qed

lemma runBatches_total:
  assumes "\<forall>r\<in>set rs. fst r \<le> snd r \<and> snd r \<le> length keys" "repliesFit MGet"
  shows "\<exists>st'. runBatches ctx ga (getMultiBatch MGet keys) rs e st = Inr (e, st')"
  using assms
proof (induction rs arbitrary: e st)
  case Nil
  then show ?case by simp
next
  case (Cons r rs)
  obtain i j where r: "r = (i, j)" by (cases r)
  from Cons.prems r have ij: "i \<le> j" "j \<le> length keys" by auto
  from getMultiBatch_total[OF ij Cons.prems(2)] obtain st1 where
    f: "getMultiBatch MGet keys i j st = Inr (None, st1)" by blast
  from Cons.prems have "\<forall>r\<in>set rs. fst r \<le> snd r \<and> snd r \<le> length keys" by simp
  from Cons.IH[OF this Cons.prems(2)] obtain st' where
    "runBatches ctx ga (getMultiBatch MGet keys) rs e st1 = Inr (e, st')" by blast
  with f r show ?case by auto
qed

lemma batchRanges_bounds:
  "r \<in> set (batchRanges a n b) \<Longrightarrow> a \<le> fst r \<and> fst r < snd r \<and> snd r \<le> n \<and> snd r \<le> fst r + b"
proof (induction a n b rule: batchRanges.induct)
  case (1 i n b)
  show ?case
  proof (cases "b = 0 \<or> n \<le> i")
    case True
    with "1.prems" show ?thesis by (simp add: batchRanges.simps[of i n b])
  next
    case False
    with "1.prems" have "r = (i, min (i + b) n) \<or> r \<in> set (batchRanges (i + b) n b)"
      by (simp add: batchRanges.simps[of i n b])
    then show ?thesis
    proof
      assume "r = (i, min (i + b) n)"
      with False show ?thesis by auto
    next
      assume "r \<in> set (batchRanges (i + b) n b)"
      from "1.IH"[OF False this] show ?thesis by auto
    qed
  qed
qed

lemma batchRanges_length:
  "0 < b \<Longrightarrow> length (batchRanges a n b) = (n - a + b - 1) div b"
proof (induction a n b rule: batchRanges.induct)
  case (1 i n b)
  show ?case
  proof (cases "n \<le> i")
    case True
    with "1.prems" show ?thesis by (simp add: batchRanges.simps[of i n b])
  next
    case False
    with "1.prems" have nz: "\<not> (b = 0 \<or> n \<le> i)" by simp
    have "length (batchRanges i n b) = Suc (length (batchRanges (i + b) n b))"
      using nz by (simp add: batchRanges.simps[of i n b])
    also have "\<dots> = Suc ((n - (i + b) + b - 1) div b)"
      using "1.IH"[OF nz "1.prems"] by simp
    also have "\<dots> = (n - i + b - 1) div b"
    proof (cases "i + b \<le> n")
      case True
      then have "n - i + b - 1 = (n - (i + b) + b - 1) + b" using "1.prems" by simp
      then show ?thesis using "1.prems" by (metis div_add_self2 less_numeral_extra(3) Suc_eq_plus1)
    next
      case False
      then have a: "n - (i + b) + b - 1 = b - 1" by simp
      from False nz have "b \<le> n - i + b - 1" "n - i + b - 1 < 2 * b" by auto
      then have "(n - i + b - 1) div b = 1"
        by (intro div_nat_eqI) simp_all
      with a "1.prems" show ?thesis by simp
    qed
    finally show ?thesis .
  qed
qed

lemma batchRanges_concat:
  "0 < b \<Longrightarrow> n = length keys \<Longrightarrow> concat (map (batchKeys keys) (batchRanges a n b)) = drop a keys"
proof (induction a n b rule: batchRanges.induct)
  case (1 i n b)
  show ?case
  proof (cases "n \<le> i")
    case True
    then have "batchRanges i n b = []" by (simp add: batchRanges.simps[of i n b])
    with True "1.prems" show ?thesis by simp
  next
    case False
    with "1.prems" have nz: "\<not> (b = 0 \<or> n \<le> i)" by simp
    have "concat (map (batchKeys keys) (batchRanges i n b)) =
          batchKeys keys (i, min (i + b) n) @ drop (i + b) keys"
      using nz "1.IH"[OF nz "1.prems"] by (simp add: batchRanges.simps[of i n b])
    also have "\<dots> = take b (drop i keys) @ drop b (drop i keys)"
      using "1.prems" False by (auto simp: batchKeys_def min_def add.commute)
    also have "\<dots> = drop i keys" by (rule append_take_drop_id)
    finally show ?thesis .
  qed
qed

lemma batchRanges_nth:
  "0 < b \<Longrightarrow> k < length (batchRanges a n b) \<Longrightarrow>
   batchRanges a n b ! k = (a + k * b, min (a + (k + 1) * b) n)"
proof (induction a n b arbitrary: k rule: batchRanges.induct)
  case (1 i n b)
  from "1.prems" have nz: "\<not> (b = 0 \<or> n \<le> i)"
    by (auto simp: batchRanges.simps[of i n b])
  then have eq: "batchRanges i n b = (i, min (i + b) n) # batchRanges (i + b) n b"
    by (simp add: batchRanges.simps[of i n b])
  show ?case
  proof (cases k)
    case 0
    then show ?thesis by (simp add: eq)
  next
    case (Suc k')
    with "1.prems" eq have "k' < length (batchRanges (i + b) n b)" by simp
    from "1.IH"[OF nz "1.prems"(1) this] Suc show ?thesis
      by (simp add: eq add.assoc add.commute add.left_commute)
  qed
qed

subsection \<open>The result of \<open>GetMulti\<close>\<close>

lemma putAll_append: "putAll m (xs @ ys) = putAll (putAll m xs) ys"
  by (simp add: putAll_def)

lemma batchMerge_hits: "batchMerge MGet keys m r = putAll m (batchHits MGet keys r)"
  by (simp add: batchMerge_def batchHits_def split: sum.splits)

lemma foldl_batchMerge:
  "foldl (batchMerge MGet keys) m rs = putAll m (concat (map (batchHits MGet keys) rs))"
  by (induction rs arbitrary: m) (simp_all add: batchMerge_hits putAll_append)

lemma ranges_valid:
  "\<forall>r\<in>set (batchRanges 0 (length keys) b). fst r \<le> snd r \<and> snd r \<le> length keys"
  using batchRanges_bounds[of _ 0 "length keys" b] by (auto simp: less_imp_le)

lemma GetMulti_Inr:
  assumes "GetMulti c ctx MGet keys = Inr (res, st)" "keys \<noteq> []"
  shows "res = Some (putAll Map.empty (concat (map (batchHits MGet keys) (batchesOf c ctx keys))))
       \<and> mgetLog st = map (batchKeys keys) (batchesOf c ctx keys)
       \<and> operations st = length (batchesOf c ctx keys)"
proof -
  let ?rs = "batchRanges 0 (length keys) (nat (GetMultiBatchSize (config c)))"
  from assms obtain e st' where
    run: "runBatches ctx (getMultiGate c) (getMultiBatch MGet keys) ?rs None gm_init = Inr (e, st')"
    by (auto simp: GetMulti_def doWithBatch_def split: sum.splits)
  from runBatches_Inr[OF run ranges_valid] have
    e: "e = None" and
    r: "results st' = putAll Map.empty (concat (map (batchHits MGet keys) (batchesOf c ctx keys)))" and
    l: "mgetLog st' = map (batchKeys keys) (batchesOf c ctx keys)" and
    ops: "operations st' = length (batchesOf c ctx keys)"
    by (simp_all add: foldl_batchMerge batchesOf_def gm_init_def)
  from assms run e have "res = Some (results st')" "st = st'"
    by (auto simp: GetMulti_def doWithBatch_def)
  with r l ops show ?thesis by simp
qed

lemma GetMulti_total:
  assumes "repliesFit MGet" "keys \<noteq> []"
  shows "\<exists>res st. GetMulti c ctx MGet keys = Inr (Some res, st)"
proof -
  let ?rs = "batchRanges 0 (length keys) (nat (GetMultiBatchSize (config c)))"
  from runBatches_total[OF ranges_valid assms(1)] obtain st' where
    "runBatches ctx (getMultiGate c) (getMultiBatch MGet keys) ?rs None gm_init = Inr (None, st')"
    by blast
  with assms(2) show ?thesis
    by (auto simp: GetMulti_def doWithBatch_def)
qed

lemma hitsOf_iff:
  "(k, v) \<in> set (hitsOf ks rs) \<longleftrightarrow>
   (\<exists>p s. p < length ks \<and> p < length rs \<and> ks ! p = k \<and> rs ! p = RString s \<and> v = stringToBytes s)"
  by (auto simp: set_hitsOf in_set_zip)

lemma stringReply_Some:
  "stringReply MGet keys r p = Some s \<longleftrightarrow>
   (\<exists>resp. MGet (fst r) (batchKeys keys r) = Inr resp \<and> p < length resp \<and> resp ! p = RString s)"
  by (auto simp: stringReply_def split: sum.splits redis_reply.splits)

lemma batchHits_iff:
  "(k, v) \<in> set (batchHits MGet keys r) \<longleftrightarrow>
   (\<exists>p s. p < length (batchKeys keys r) \<and> batchKeys keys r ! p = k \<and>
          stringReply MGet keys r p = Some s \<and> v = stringToBytes s)"
proof (cases "MGet (fst r) (batchKeys keys r)")
  case (Inl err)
  then show ?thesis by (simp add: batchHits_def stringReply_def)
next
  case (Inr resp)
  then have "batchHits MGet keys r = hitsOf (batchKeys keys r) resp" by (simp add: batchHits_def)
  moreover have "\<And>p s. stringReply MGet keys r p = Some s \<longleftrightarrow> p < length resp \<and> resp ! p = RString s"
    using Inr by (simp add: stringReply_Some)
  ultimately show ?thesis by (simp add: hitsOf_iff) blast
qed

lemma batchKeys_subset: "set (batchKeys keys r) \<subseteq> set keys"
  by (auto simp: batchKeys_def dest: in_set_takeD in_set_dropD)

lemma distinct_hitsOf: "distinct ks \<Longrightarrow> distinct (map fst (hitsOf ks rs))"
proof (induction ks rs rule: hitsOf.induct)
  case (1 k ks s rs)
  then show ?case by (auto simp: hitsOf_iff dest: nth_mem)
qed simp_all

lemma fst_batchHits_subset: "fst ` set (batchHits MGet keys r) \<subseteq> set (batchKeys keys r)"
  by (auto simp: batchHits_iff)

lemma distinct_batchHits:
  "distinct (batchKeys keys r) \<Longrightarrow> distinct (map fst (batchHits MGet keys r))"
  by (simp add: batchHits_def distinct_hitsOf split: sum.splits)

lemma distinct_allHits:
  "distinct (concat (map (batchKeys keys) rs)) \<Longrightarrow>
   distinct (map fst (concat (map (batchHits MGet keys) rs)))"
proof (induction rs)
  case Nil
  then show ?case by simp
next
  case (Cons r rs)
  from Cons.prems have d: "distinct (batchKeys keys r)" "distinct (concat (map (batchKeys keys) rs))"
    and disj: "set (batchKeys keys r) \<inter> (\<Union>r'\<in>set rs. set (batchKeys keys r')) = {}"
    by auto
  have "fst ` set (batchHits MGet keys r) \<inter> (\<Union>r'\<in>set rs. fst ` set (batchHits MGet keys r')) = {}"
    using disj fst_batchHits_subset[of MGet keys] by blast
  with Cons.IH[OF d(2)] distinct_batchHits[OF d(1)] show ?case
    by (auto simp: image_Un image_UN)
qed

lemma distinct_batches:
  assumes "distinct keys" "0 < b"
  shows "distinct (concat (map (batchKeys keys) (dispatched ctx ga (batchRanges 0 (length keys) b))))"
proof -
  let ?rs = "batchRanges 0 (length keys) b"
  let ?P = "\<lambda>r. ga = None \<or> ctx (fst r)"
  have "concat (map (batchKeys keys) (takeWhile ?P ?rs)) @ concat (map (batchKeys keys) (dropWhile ?P ?rs))
        = concat (map (batchKeys keys) ?rs)"
    by (metis concat_append map_append takeWhile_dropWhile_id)
  also have "\<dots> = keys" using batchRanges_concat[OF assms(2) refl, of keys 0] by simp
  finally show ?thesis using assms(1) unfolding dispatched_def
    by (metis distinct_append)
qed

subsection \<open>The sample run\<close>

lemma exampleClient_fields:
  "GetMultiBatchSize (config exampleClient) = 2"
  "getMultiGate exampleClient = Some \<lparr>maxConcurrent = 2\<rparr>"
  by (simp_all add: exampleClient_def NewRedisClient_def exampleExt_def exampleConfig_def gate_New_def)

lemma repliesFit_example: "repliesFit exampleBackend"
  by (simp add: repliesFit_def exampleBackend_def)

lemma ex_ranges: "batchRanges 0 5 2 = [(0, 2), (2, 4), (4, 5)]"
  by (simp add: batchRanges.simps)

lemma ex_run:
  "GetMulti exampleClient (\<lambda>i. True) exampleBackend [''a'', ''b'', ''c'', ''a'', ''d''] =
   Inr (Some [''a'' \<mapsto> stringToBytes ''x''],
     \<lparr>results = [''a'' \<mapsto> stringToBytes ''x''], operations = 3, dataSize = [1, 0],
      mgetLog = [[''a'', ''b''], [''c'', ''a''], [''d'']], warns = 2\<rparr>)"
  by (simp add: GetMulti_def doWithBatch_def exampleClient_fields batchRanges.simps gm_init_def
       getMultiBatch_def go_slice_def exampleBackend_def)

subsection \<open>Hits and misses\<close>

lemma distinct_concat_nth:
  assumes "distinct (concat (map f rs))" "r \<in> set rs" "r' \<in> set rs"
    "p < length (f r)" "p' < length (f r')" "f r ! p = f r' ! p'"
  shows "r = r' \<and> p = p'"
  using assms
proof (induction rs)
  case Nil
  then show ?case by simp
next
  case (Cons a rs)
  from Cons.prems(1) have da: "distinct (f a)" and dr: "distinct (concat (map f rs))"
    and disj: "\<And>x y. x \<in> set (f a) \<Longrightarrow> y \<in> set rs \<Longrightarrow> x \<in> set (f y) \<Longrightarrow> False"
    by auto
  have inr: "f r ! p \<in> set (f r)" and inr': "f r' ! p' \<in> set (f r')"
    using Cons.prems(4,5) by simp_all
  show ?case
  proof (cases "r \<in> set rs")
    case True
    show ?thesis
    proof (cases "r' \<in> set rs")
      case True
      with \<open>r \<in> set rs\<close> Cons.IH[OF dr] Cons.prems(4,5,6) show ?thesis by blast
    next
      case False
      with Cons.prems(3) have "r' = a" by simp
      with disj[of "f r ! p" r] True inr inr' Cons.prems(6) show ?thesis by auto
    qed
  next
    case False
    with Cons.prems(2) have ra: "r = a" by simp
    show ?thesis
    proof (cases "r' \<in> set rs")
      case True
      with disj[of "f r ! p" r'] ra inr inr' Cons.prems(6) show ?thesis by auto
    next
      case False
      with Cons.prems(3) have "r' = a" by simp
      with ra da Cons.prems(4,5,6) show ?thesis by (simp add: nth_eq_iff_index_eq)
    qed
  qed
qed

lemma batchHits_bytes:
  "(k, v) \<in> set (batchHits MGet keys r) \<longleftrightarrow>
   (\<exists>p s. p < length (batchKeys keys r) \<and> batchKeys keys r ! p = k \<and>
          stringReply MGet keys r p = Some s \<and> v = bytes_of_string s)"
  by (simp add: batchHits_iff stringToBytes_eq)

text \<open>
  C4, as amended: when the server keeps its contract (no reply is longer than its
  batch) and the batch size is positive, a \<open>GetMulti\<close> call on a non-empty request
  returns a map that holds a key exactly when the reply at some position of that key,
  in a batch that was dispatched, is a string; the value of an entry is the bytes of
  such a reply string. A position whose reply is nil or of an unexpected shape, or whose
  batch failed, adds no entry, and every key of the map is a key of the request. When
  the keys are distinct, the entry of each position is exactly the bytes of the string
  replied for that position, and there is no entry when no string was replied for it.
\<close>

theorem GetMulti_hits:
  assumes "repliesFit MGet" "keys \<noteq> []" "0 < GetMultiBatchSize (config c)"
  shows "\<exists>res st. GetMulti c ctx MGet keys = Inr (Some res, st) \<and>
     (\<forall>k. k \<in> dom res \<longleftrightarrow>
        (\<exists>r\<in>set (batchesOf c ctx keys). \<exists>p s. p < length (batchKeys keys r) \<and>
           batchKeys keys r ! p = k \<and> stringReply MGet keys r p = Some s)) \<and>
     (\<forall>k v. res k = Some v \<longrightarrow>
        (\<exists>r\<in>set (batchesOf c ctx keys). \<exists>p s. p < length (batchKeys keys r) \<and>
           batchKeys keys r ! p = k \<and> stringReply MGet keys r p = Some s \<and> v = bytes_of_string s)) \<and>
     dom res \<subseteq> set keys \<and>
     (distinct keys \<longrightarrow>
        (\<forall>r\<in>set (batchesOf c ctx keys). \<forall>p<length (batchKeys keys r).
           res (batchKeys keys r ! p) = map_option bytes_of_string (stringReply MGet keys r p)))"
proof -
  let ?rs = "batchesOf c ctx keys"
  let ?hits = "concat (map (batchHits MGet keys) ?rs)"
  from GetMulti_total[OF assms(1,2)] obtain res st where
    g: "GetMulti c ctx MGet keys = Inr (Some res, st)" by blast
  from GetMulti_Inr[OF g assms(2)] have res: "res = putAll Map.empty ?hits" by simp
  have mem: "\<And>k v. (k, v) \<in> set ?hits \<longleftrightarrow>
      (\<exists>r\<in>set ?rs. \<exists>p s. p < length (batchKeys keys r) \<and>
           batchKeys keys r ! p = k \<and> stringReply MGet keys r p = Some s \<and> v = bytes_of_string s)"
    by (auto simp: batchHits_bytes)
  have d: "\<forall>k. k \<in> dom res \<longleftrightarrow>
        (\<exists>r\<in>set ?rs. \<exists>p s. p < length (batchKeys keys r) \<and>
           batchKeys keys r ! p = k \<and> stringReply MGet keys r p = Some s)"
  proof
    fix k
    have "k \<in> dom res \<longleftrightarrow> (\<exists>v. (k, v) \<in> set ?hits)"
      unfolding res dom_putAll by force
    also have "\<dots> \<longleftrightarrow> (\<exists>r\<in>set ?rs. \<exists>p s. p < length (batchKeys keys r) \<and>
           batchKeys keys r ! p = k \<and> stringReply MGet keys r p = Some s)"
      unfolding mem by blast
    finally show "k \<in> dom res \<longleftrightarrow> (\<exists>r\<in>set ?rs. \<exists>p s. p < length (batchKeys keys r) \<and>
           batchKeys keys r ! p = k \<and> stringReply MGet keys r p = Some s)" .
  qed
  have v: "\<forall>k v. res k = Some v \<longrightarrow>
        (\<exists>r\<in>set ?rs. \<exists>p s. p < length (batchKeys keys r) \<and>
           batchKeys keys r ! p = k \<and> stringReply MGet keys r p = Some s \<and> v = bytes_of_string s)"
  proof (intro allI impI)
    fix k v assume "res k = Some v"
    then have "(k, v) \<in> set ?hits" unfolding res by (auto dest: putAll_Some)
    then show "\<exists>r\<in>set ?rs. \<exists>p s. p < length (batchKeys keys r) \<and>
           batchKeys keys r ! p = k \<and> stringReply MGet keys r p = Some s \<and> v = bytes_of_string s"
      unfolding mem .
  qed
  have sub: "dom res \<subseteq> set keys"
  proof
    fix k assume "k \<in> dom res"
    with d obtain r p where "p < length (batchKeys keys r)" "batchKeys keys r ! p = k" by blast
    then have "k \<in> set (batchKeys keys r)" by (auto dest: nth_mem)
    with batchKeys_subset show "k \<in> set keys" by blast
  qed
  have x: "distinct keys \<longrightarrow>
        (\<forall>r\<in>set ?rs. \<forall>p<length (batchKeys keys r).
           res (batchKeys keys r ! p) = map_option bytes_of_string (stringReply MGet keys r p))"
  proof (intro impI ballI allI)
    fix r p
    assume dk: "distinct keys"
      and r: "r \<in> set ?rs" and p: "p < length (batchKeys keys r)"
    from assms(3) have "0 < nat (GetMultiBatchSize (config c))" by simp
    from distinct_batches[OF dk this]
    have dks: "distinct (concat (map (batchKeys keys) ?rs))" by (simp add: batchesOf_def)
    from distinct_allHits[OF dks] have dh: "distinct (map fst ?hits)" .
    show "res (batchKeys keys r ! p) = map_option bytes_of_string (stringReply MGet keys r p)"
    proof (cases "stringReply MGet keys r p")
      case None
      have "res (batchKeys keys r ! p) = None"
      proof (rule ccontr)
        assume "res (batchKeys keys r ! p) \<noteq> None"
        then obtain v where "res (batchKeys keys r ! p) = Some v" by blast
        with v obtain r' p' s where r': "r' \<in> set ?rs" "p' < length (batchKeys keys r')"
          "batchKeys keys r' ! p' = batchKeys keys r ! p" "stringReply MGet keys r' p' = Some s"
          by blast
        from distinct_concat_nth[OF dks r'(1) r r'(2) p r'(3)] have "r' = r" "p' = p" by simp_all
        with r'(4) None show False by simp
      qed
      with None show ?thesis by simp
    next
      case (Some s)
      with r p have "(batchKeys keys r ! p, bytes_of_string s) \<in> set ?hits"
        unfolding mem by blast
      from putAll_distinct[OF dh this] Some show ?thesis by (simp add: res)
    qed
  qed
  from g d v sub x show ?thesis by blast
qed

lemma ex3_batches: "batchesOf exampleClient (\<lambda>i. True) [''a'', ''b'', ''c''] = [(0, 2), (2, 3)]"
  by (simp add: batchesOf_def dispatched_def exampleClient_fields batchRanges.simps)

theorem GetMulti_hits_witness:
  "repliesFit exampleBackend \<and> [''a'', ''b'', ''c''] \<noteq> [] \<and>
   0 < GetMultiBatchSize (config exampleClient) \<and> distinct [''a'', ''b'', ''c''] \<and>
   (\<exists>res st. GetMulti exampleClient (\<lambda>i. True) exampleBackend [''a'', ''b'', ''c''] = Inr (Some res, st) \<and>
      dom res \<subseteq> set [''a'', ''b'', ''c''] \<and> res ''a'' = Some [120] \<and> res ''b'' = None)"
proof -
  have k: "[''a'', ''b'', ''c''] \<noteq> []" and dk: "distinct [''a'', ''b'', ''c'']" by simp_all
  have bs: "0 < GetMultiBatchSize (config exampleClient)" by (simp add: exampleClient_fields)
  from GetMulti_hits[OF repliesFit_example k bs, of "\<lambda>i. True"] dk obtain res st where
    g: "GetMulti exampleClient (\<lambda>i. True) exampleBackend [''a'', ''b'', ''c''] = Inr (Some res, st)"
    and sub: "dom res \<subseteq> set [''a'', ''b'', ''c'']"
    and x: "\<forall>r\<in>set (batchesOf exampleClient (\<lambda>i. True) [''a'', ''b'', ''c'']).
        \<forall>p<length (batchKeys [''a'', ''b'', ''c''] r).
           res (batchKeys [''a'', ''b'', ''c''] r ! p) =
           map_option bytes_of_string (stringReply exampleBackend [''a'', ''b'', ''c''] r p)"
    by blast
  from x have "\<forall>p<length (batchKeys [''a'', ''b'', ''c''] (0, 2)).
           res (batchKeys [''a'', ''b'', ''c''] (0, 2) ! p) =
           map_option bytes_of_string (stringReply exampleBackend [''a'', ''b'', ''c''] (0, 2) p)"
    by (simp add: ex3_batches)
  then have
    "res (batchKeys [''a'', ''b'', ''c''] (0, 2) ! 0) =
       map_option bytes_of_string (stringReply exampleBackend [''a'', ''b'', ''c''] (0, 2) 0)"
    "res (batchKeys [''a'', ''b'', ''c''] (0, 2) ! 1) =
       map_option bytes_of_string (stringReply exampleBackend [''a'', ''b'', ''c''] (0, 2) 1)"
    by (auto simp: batchKeys_def)
  then have "res ''a'' = Some [120]" "res ''b'' = None"
    by (simp_all add: batchKeys_def stringReply_def exampleBackend_def bytes_of_string_def)
  with g sub k dk bs repliesFit_example show ?thesis by blast
qed

text \<open>
  C4 as stated fails for a key that occurs more than once: in the request \<open>k, k\<close> with
  the replies \<open>"1"\<close> and nil, the reply for the second position of \<open>k\<close> is nil, and \<open>k\<close> is
  in the result all the same, with the string replied for its first position.
\<close>

theorem duplicate_key_kept:
  "batchKeys [''k'', ''k''] (0, 2) ! 1 = ''k'' \<and>
   positionalBackend 0 [''k'', ''k''] = Inr [RString ''1'', RNil] \<and>
   stringReply positionalBackend [''k'', ''k''] (0, 2) 1 = None \<and>
   GetMulti exampleClient (\<lambda>i. True) positionalBackend [''k'', ''k''] =
     Inr (Some [''k'' \<mapsto> [49]],
       \<lparr>results = [''k'' \<mapsto> [49]], operations = 1, dataSize = [1],
        mgetLog = [[''k'', ''k'']], warns = 0\<rparr>)"
  by (simp add: GetMulti_def doWithBatch_def exampleClient_fields batchRanges.simps gm_init_def
       getMultiBatch_def go_slice_def positionalBackend_def batchKeys_def stringReply_def
       stringToBytes_eq bytes_of_string_def)

subsection \<open>The order of the merges\<close>

text \<open>
  The batches of the code merge in the order in which they take the mutex. The keys of
  the result do not depend on that order, and neither does the property that a value
  is a string replied for its key by one of the batches.
\<close>

lemma merge_order_dom:
  "set rs' = set rs \<Longrightarrow>
   dom (foldl (batchMerge MGet keys) m rs') = dom (foldl (batchMerge MGet keys) m rs)"
  by (simp add: foldl_batchMerge dom_putAll)

lemma merge_order_value:
  assumes "set rs' = set rs" "foldl (batchMerge MGet keys) Map.empty rs' k = Some v"
  shows "\<exists>r\<in>set rs. (k, v) \<in> set (batchHits MGet keys r)"
proof -
  from assms(2) have "(k, v) \<in> set (concat (map (batchHits MGet keys) rs'))"
    unfolding foldl_batchMerge by (auto dest: putAll_Some)
  with assms(1) show ?thesis by auto
qed

subsection \<open>A batch whose backend call fails\<close>

lemma dispatched_all: "ga = None \<or> (\<forall>i. ctx i) \<Longrightarrow> dispatched ctx ga rs = rs"
  by (auto simp: dispatched_def takeWhile_eq_all_conv)

lemma dispatched_cut:
  "ga \<noteq> None \<Longrightarrow> \<forall>r'\<in>set ds. ctx (fst r') \<Longrightarrow> \<not> ctx (fst r) \<Longrightarrow>
   dispatched ctx ga (ds @ r # rest) = ds"
  by (simp add: dispatched_def takeWhile_tail takeWhile_eq_all_conv)

lemma hit_in_dom:
  assumes "r \<in> set rs" "p < length (batchKeys keys r)" "stringReply MGet keys r p = Some s"
  shows "batchKeys keys r ! p \<in> dom (putAll m (concat (map (batchHits MGet keys) rs)))"
proof -
  from assms(2,3) have "(batchKeys keys r ! p, stringToBytes s) \<in> set (batchHits MGet keys r)"
    by (auto simp: batchHits_iff)
  with assms(1) have "batchKeys keys r ! p \<in> fst ` set (concat (map (batchHits MGet keys) rs))"
    by force
  then show ?thesis by (simp add: dom_putAll)
qed

lemma batchHits_failed: "MGet (fst r) (batchKeys keys r) = Inl e \<Longrightarrow> batchHits MGet keys r = []"
  by (simp add: batchHits_def)

text \<open>
  C3, as amended: when the server keeps its contract and the batch size is positive, a
  \<open>GetMulti\<close> call on a non-empty request neither fails nor panics, whatever batches
  fail: it returns a map. A batch
  whose \<open>MGet\<close> fails adds no entry, so a key that occurs only in failed batches is
  absent. The failure aborts no other batch: \<open>MGet\<close> is called for every dispatched
  batch, and these are all the batches of the request unless a permit acquisition is
  cancelled; and every string replied to a batch that succeeded is in the map.
\<close>

theorem GetMulti_failed_batch:
  assumes "repliesFit MGet" "keys \<noteq> []" "0 < GetMultiBatchSize (config c)"
  shows "\<exists>res st. GetMulti c ctx MGet keys = Inr (Some res, st) \<and>
     (\<forall>k. (\<forall>r\<in>set (batchesOf c ctx keys). k \<in> set (batchKeys keys r) \<longrightarrow>
              (\<exists>e. MGet (fst r) (batchKeys keys r) = Inl e)) \<longrightarrow> k \<notin> dom res) \<and>
     mgetLog st = map (batchKeys keys) (batchesOf c ctx keys) \<and>
     (getMultiGate c = None \<or> (\<forall>i. ctx i) \<longrightarrow>
        batchesOf c ctx keys = batchRanges 0 (length keys) (nat (GetMultiBatchSize (config c)))) \<and>
     (\<forall>r\<in>set (batchesOf c ctx keys). \<forall>p s. p < length (batchKeys keys r) \<longrightarrow>
        stringReply MGet keys r p = Some s \<longrightarrow> batchKeys keys r ! p \<in> dom res)"
proof -
  let ?rs = "batchesOf c ctx keys"
  let ?hits = "concat (map (batchHits MGet keys) ?rs)"
  from GetMulti_total[OF assms(1,2)] obtain res st where
    g: "GetMulti c ctx MGet keys = Inr (Some res, st)" by blast
  from GetMulti_Inr[OF g assms(2)] have res: "res = putAll Map.empty ?hits"
    and l: "mgetLog st = map (batchKeys keys) ?rs" by simp_all
  have a: "\<forall>k. (\<forall>r\<in>set ?rs. k \<in> set (batchKeys keys r) \<longrightarrow>
              (\<exists>e. MGet (fst r) (batchKeys keys r) = Inl e)) \<longrightarrow> k \<notin> dom res"
  proof (intro allI impI notI)
    fix k
    assume only: "\<forall>r\<in>set ?rs. k \<in> set (batchKeys keys r) \<longrightarrow> (\<exists>e. MGet (fst r) (batchKeys keys r) = Inl e)"
      and "k \<in> dom res"
    then obtain v where "(k, v) \<in> set ?hits" unfolding res dom_putAll by force
    then obtain r where r: "r \<in> set ?rs" "(k, v) \<in> set (batchHits MGet keys r)" by auto
    with fst_batchHits_subset[of MGet keys r] have "k \<in> set (batchKeys keys r)" by force
    with only r(1) obtain e where "MGet (fst r) (batchKeys keys r) = Inl e" by blast
    with r(2) show False by (simp add: batchHits_failed)
  qed
  have d: "getMultiGate c = None \<or> (\<forall>i. ctx i) \<longrightarrow>
        ?rs = batchRanges 0 (length keys) (nat (GetMultiBatchSize (config c)))"
    by (auto simp: batchesOf_def dispatched_all)
  have h: "\<forall>r\<in>set ?rs. \<forall>p s. p < length (batchKeys keys r) \<longrightarrow>
        stringReply MGet keys r p = Some s \<longrightarrow> batchKeys keys r ! p \<in> dom res"
  proof (intro ballI allI impI)
    fix r p s
    assume "r \<in> set ?rs" "p < length (batchKeys keys r)" "stringReply MGet keys r p = Some s"
    then show "batchKeys keys r ! p \<in> dom res" unfolding res by (rule hit_in_dom)
  qed
  from g a l d h show ?thesis by blast
qed

theorem GetMulti_failed_batch_witness:
  "repliesFit exampleBackend \<and> [''a'', ''b'', ''c'', ''c'', ''a''] \<noteq> [] \<and>
   0 < GetMultiBatchSize (config exampleClient) \<and>
   exampleBackend 2 (batchKeys [''a'', ''b'', ''c'', ''c'', ''a''] (2, 4)) = Inl (BackendError ''i/o timeout'') \<and>
   (\<exists>res st. GetMulti exampleClient (\<lambda>i. True) exampleBackend [''a'', ''b'', ''c'', ''c'', ''a''] = Inr (Some res, st) \<and>
      mgetLog st = map (batchKeys [''a'', ''b'', ''c'', ''c'', ''a'']) (batchesOf exampleClient (\<lambda>i. True) [''a'', ''b'', ''c'', ''c'', ''a'']))"
  using GetMulti_failed_batch[OF repliesFit_example, of "[''a'', ''b'', ''c'', ''c'', ''a'']" exampleClient "\<lambda>i. True"]
  by (simp add: repliesFit_example exampleBackend_def exampleClient_fields) blast

text \<open>
  C3 as stated fails when a key of the failed batch occurs in another batch as well: in
  the request \<open>a, b, a, c\<close> the call for the batch \<open>a, c\<close> fails, and \<open>a\<close> is in the
  result all the same, from the batch \<open>a, b\<close>.
\<close>

theorem failed_batch_key_present:
  "exampleBackend 2 (batchKeys [''a'', ''b'', ''a'', ''c''] (2, 4)) = Inl (BackendError ''i/o timeout'') \<and>
   ''a'' \<in> set (batchKeys [''a'', ''b'', ''a'', ''c''] (2, 4)) \<and>
   batchesOf exampleClient (\<lambda>i. True) [''a'', ''b'', ''a'', ''c''] = [(0, 2), (2, 4)] \<and>
   GetMulti exampleClient (\<lambda>i. True) exampleBackend [''a'', ''b'', ''a'', ''c''] =
     Inr (Some [''a'' \<mapsto> stringToBytes ''x''],
       \<lparr>results = [''a'' \<mapsto> stringToBytes ''x''], operations = 2, dataSize = [1],
        mgetLog = [[''a'', ''b''], [''a'', ''c'']], warns = 1\<rparr>)"
  by (simp add: GetMulti_def doWithBatch_def exampleClient_fields batchRanges.simps gm_init_def
       getMultiBatch_def go_slice_def exampleBackend_def batchKeys_def batchesOf_def dispatched_def)

subsection \<open>The number and the shape of the batches\<close>

lemma batchKeys_range: "batchKeys keys (i, min (i + b) (length keys)) = take b (drop i keys)"
  by (simp add: batchKeys_def min_def)

text \<open>
  C5, as amended: for a non-empty request of \<open>N\<close> keys and a batch size \<open>B > 0\<close>, when
  the server keeps its contract, \<open>GetMulti\<close> calls \<open>MGet\<close> at most \<open>ceil(N / B)\<close> times (and
  counts one operation per call); the \<open>n\<close>-th call is for the \<open>B\<close> keys from index
  \<open>n * B\<close> on, or for the keys that remain; no batch is empty or longer than \<open>B\<close>, and
  only the last of the \<open>ceil(N / B)\<close> batches may be shorter. When no permit acquisition
  is cancelled (the client has no gate, or the context stays live) the calls are
  exactly \<open>ceil(N / B)\<close>, and their batches in order concatenate to the request.
\<close>

theorem GetMulti_batches:
  assumes "repliesFit MGet" "keys \<noteq> []" "0 < GetMultiBatchSize (config c)"
  shows "\<exists>res st. GetMulti c ctx MGet keys = Inr (Some res, st) \<and>
     length (mgetLog st) \<le>
       (length keys + nat (GetMultiBatchSize (config c)) - 1) div nat (GetMultiBatchSize (config c)) \<and>
     operations st = length (mgetLog st) \<and>
     (\<forall>n<length (mgetLog st).
        mgetLog st ! n = take (nat (GetMultiBatchSize (config c))) (drop (n * nat (GetMultiBatchSize (config c))) keys) \<and>
        0 < length (mgetLog st ! n) \<and>
        length (mgetLog st ! n) \<le> nat (GetMultiBatchSize (config c)) \<and>
        (Suc n < (length keys + nat (GetMultiBatchSize (config c)) - 1) div nat (GetMultiBatchSize (config c)) \<longrightarrow>
           length (mgetLog st ! n) = nat (GetMultiBatchSize (config c)))) \<and>
     (getMultiGate c = None \<or> (\<forall>i. ctx i) \<longrightarrow>
        length (mgetLog st) =
          (length keys + nat (GetMultiBatchSize (config c)) - 1) div nat (GetMultiBatchSize (config c)) \<and>
        concat (mgetLog st) = keys)"
proof -
  let ?b = "nat (GetMultiBatchSize (config c))"
  let ?rs = "batchRanges 0 (length keys) ?b"
  let ?ds = "batchesOf c ctx keys"
  from assms(3) have b: "0 < ?b" by simp
  from GetMulti_total[OF assms(1,2)] obtain res st where
    g: "GetMulti c ctx MGet keys = Inr (Some res, st)" by blast
  from GetMulti_Inr[OF g assms(2)] have
    l: "mgetLog st = map (batchKeys keys) ?ds" and ops: "operations st = length ?ds" by simp_all
  have lrs: "length ?rs = (length keys + ?b - 1) div ?b"
    using batchRanges_length[OF b, of 0 "length keys"] by simp
  have pre: "?ds = takeWhile (\<lambda>r. getMultiGate c = None \<or> ctx (fst r)) ?rs"
    by (simp add: batchesOf_def dispatched_def)
  have len: "length (mgetLog st) \<le> (length keys + ?b - 1) div ?b"
    unfolding l pre lrs[symmetric] by (simp add: length_takeWhile_le)
  have nth: "\<forall>n<length (mgetLog st).
        mgetLog st ! n = take ?b (drop (n * ?b) keys) \<and>
        0 < length (mgetLog st ! n) \<and>
        length (mgetLog st ! n) \<le> ?b \<and>
        (Suc n < (length keys + ?b - 1) div ?b \<longrightarrow> length (mgetLog st ! n) = ?b)"
  proof (intro allI impI)
    fix n assume n: "n < length (mgetLog st)"
    with l have nd: "n < length ?ds" by simp
    with len l have n': "n < length ?rs" by (simp add: lrs)
    from nd have dn: "?ds ! n = ?rs ! n" unfolding pre by (rule takeWhile_nth)
    from batchRanges_nth[OF b n'] have r: "?rs ! n = (n * ?b, min (n * ?b + ?b) (length keys))"
      by simp
    with l nd dn have e: "mgetLog st ! n = take ?b (drop (n * ?b) keys)"
      by (simp add: batchKeys_range)
    from n' have "?rs ! n \<in> set ?rs" by simp
    from batchRanges_bounds[OF this] r have lt: "n * ?b < length keys" by simp
    have full: "Suc n < (length keys + ?b - 1) div ?b \<longrightarrow> length (mgetLog st ! n) = ?b"
    proof
      assume "Suc n < (length keys + ?b - 1) div ?b"
      with lrs have sn: "Suc n < length ?rs" by simp
      then have "?rs ! Suc n \<in> set ?rs" by simp
      from batchRanges_bounds[OF this] batchRanges_nth[OF b sn]
      have "Suc n * ?b < length keys" by simp
      then show "length (mgetLog st ! n) = ?b" unfolding e by simp
    qed
    from e lt b full show "mgetLog st ! n = take ?b (drop (n * ?b) keys) \<and>
        0 < length (mgetLog st ! n) \<and>
        length (mgetLog st ! n) \<le> ?b \<and>
        (Suc n < (length keys + ?b - 1) div ?b \<longrightarrow> length (mgetLog st ! n) = ?b)" by simp
  qed
  have all: "getMultiGate c = None \<or> (\<forall>i. ctx i) \<longrightarrow>
        length (mgetLog st) = (length keys + ?b - 1) div ?b \<and> concat (mgetLog st) = keys"
  proof
    assume "getMultiGate c = None \<or> (\<forall>i. ctx i)"
    then have "?ds = ?rs" by (auto simp: batchesOf_def dispatched_all)
    with l lrs batchRanges_concat[OF b refl, of keys 0]
    show "length (mgetLog st) = (length keys + ?b - 1) div ?b \<and> concat (mgetLog st) = keys"
      by simp
  qed
  from l ops have ops': "operations st = length (mgetLog st)" by simp
  from g len ops' nth all show ?thesis by blast
qed

theorem GetMulti_batches_witness:
  "repliesFit exampleBackend \<and> [''a'', ''b'', ''c'', ''a'', ''d''] \<noteq> [] \<and>
   0 < GetMultiBatchSize (config exampleClient) \<and>
   (\<exists>res st. GetMulti exampleClient (\<lambda>i. True) exampleBackend [''a'', ''b'', ''c'', ''a'', ''d''] = Inr (Some res, st) \<and>
      length (mgetLog st) = 3 \<and> concat (mgetLog st) = [''a'', ''b'', ''c'', ''a'', ''d''])"
proof -
  have b: "0 < GetMultiBatchSize (config exampleClient)" by (simp add: exampleClient_fields)
  from GetMulti_batches[OF repliesFit_example _ b, of "[''a'', ''b'', ''c'', ''a'', ''d'']" "\<lambda>i. True"]
  obtain res st where
    "GetMulti exampleClient (\<lambda>i. True) exampleBackend [''a'', ''b'', ''c'', ''a'', ''d''] = Inr (Some res, st)"
    "length (mgetLog st) = 3" "concat (mgetLog st) = [''a'', ''b'', ''c'', ''a'', ''d'']"
    by (auto simp: exampleClient_fields)
  with b repliesFit_example show ?thesis by blast
qed

text \<open>
  C5 as stated fails when the acquisition of a permit is cancelled: for five keys and
  batches of two, with the context cancelled when the batch at index 2 asks for its
  permit, \<open>MGet\<close> is called once and not three times, for the first two keys only.
\<close>

theorem cancelled_call_fewer_batches:
  "GetMulti exampleClient (\<lambda>i. i < 2) exampleBackend [''a'', ''b'', ''c'', ''a'', ''d''] =
     Inr (Some [''a'' \<mapsto> [120]],
       \<lparr>results = [''a'' \<mapsto> [120]], operations = 1, dataSize = [1],
        mgetLog = [[''a'', ''b'']], warns = 0\<rparr>) \<and>
   (length [''a'', ''b'', ''c'', ''a'', ''d''] + 2 - 1) div 2 = (3::nat) \<and>
   concat [[''a'', ''b'']] \<noteq> [''a'', ''b'', ''c'', ''a'', ''d'']"
  by (simp add: GetMulti_def doWithBatch_def exampleClient_fields batchRanges.simps gm_init_def
       getMultiBatch_def go_slice_def exampleBackend_def stringToBytes_eq bytes_of_string_def)

subsection \<open>A cancelled call\<close>

text \<open>
  C1: when the server keeps its contract and the batch size is positive, a \<open>GetMulti\<close>
  call on a non-empty request always returns a map, never the nil map and never an error or a panic, and the map is
  the merge of the batches that were dispatched: every string replied to one of them is
  in it. When the client has a gate and the acquisition of a permit fails by
  cancellation at some batch, after the permits of all earlier batches were granted,
  the dispatched batches are exactly those earlier batches. (With no gate every batch
  is dispatched, and a cancelled context shows as failing \<open>MGet\<close> calls, whose batches
  add nothing.)
\<close>

theorem GetMulti_cancelled:
  assumes "repliesFit MGet" "keys \<noteq> []" "0 < GetMultiBatchSize (config c)"
  shows "\<exists>st. GetMulti c ctx MGet keys =
            Inr (Some (foldl (batchMerge MGet keys) Map.empty (batchesOf c ctx keys)), st) \<and>
     mgetLog st = map (batchKeys keys) (batchesOf c ctx keys) \<and>
     (\<forall>r\<in>set (batchesOf c ctx keys). \<forall>p s. p < length (batchKeys keys r) \<longrightarrow>
        stringReply MGet keys r p = Some s \<longrightarrow>
        batchKeys keys r ! p \<in> dom (foldl (batchMerge MGet keys) Map.empty (batchesOf c ctx keys))) \<and>
     (\<forall>ds r rest. getMultiGate c \<noteq> None \<longrightarrow>
        batchRanges 0 (length keys) (nat (GetMultiBatchSize (config c))) = ds @ r # rest \<longrightarrow>
        (\<forall>r'\<in>set ds. ctx (fst r')) \<longrightarrow> \<not> ctx (fst r) \<longrightarrow> batchesOf c ctx keys = ds)"
proof -
  let ?rs = "batchesOf c ctx keys"
  from GetMulti_total[OF assms(1,2)] obtain res st where
    g: "GetMulti c ctx MGet keys = Inr (Some res, st)" by blast
  from GetMulti_Inr[OF g assms(2)] have
    res: "res = foldl (batchMerge MGet keys) Map.empty ?rs"
    and l: "mgetLog st = map (batchKeys keys) ?rs" by (simp_all add: foldl_batchMerge)
  have h: "\<forall>r\<in>set ?rs. \<forall>p s. p < length (batchKeys keys r) \<longrightarrow>
        stringReply MGet keys r p = Some s \<longrightarrow>
        batchKeys keys r ! p \<in> dom (foldl (batchMerge MGet keys) Map.empty ?rs)"
  proof (intro ballI allI impI)
    fix r p s
    assume "r \<in> set ?rs" "p < length (batchKeys keys r)" "stringReply MGet keys r p = Some s"
    then show "batchKeys keys r ! p \<in> dom (foldl (batchMerge MGet keys) Map.empty ?rs)"
      unfolding foldl_batchMerge by (rule hit_in_dom)
  qed
  have cut: "\<forall>ds r rest. getMultiGate c \<noteq> None \<longrightarrow>
        batchRanges 0 (length keys) (nat (GetMultiBatchSize (config c))) = ds @ r # rest \<longrightarrow>
        (\<forall>r'\<in>set ds. ctx (fst r')) \<longrightarrow> \<not> ctx (fst r) \<longrightarrow> ?rs = ds"
    by (simp add: batchesOf_def dispatched_cut)
  from g res l h cut show ?thesis by blast
qed

theorem GetMulti_cancelled_witness:
  "repliesFit exampleBackend \<and> [''a'', ''b'', ''c'', ''a'', ''d''] \<noteq> [] \<and>
   0 < GetMultiBatchSize (config exampleClient) \<and>
   getMultiGate exampleClient \<noteq> None \<and>
   batchRanges 0 5 2 = [(0, 2)] @ (2, 4) # [(4, 5)] \<and> \<not> (2::nat) < 2 \<and>
   (\<exists>st. GetMulti exampleClient (\<lambda>i. i < 2) exampleBackend [''a'', ''b'', ''c'', ''a'', ''d''] =
            Inr (Some [''a'' \<mapsto> stringToBytes ''x''], st) \<and> mgetLog st = [[''a'', ''b'']])"
proof -
  have k: "[''a'', ''b'', ''c'', ''a'', ''d''] \<noteq> []" by simp
  have b: "batchesOf exampleClient (\<lambda>i. i < 2) [''a'', ''b'', ''c'', ''a'', ''d''] = [(0, 2)]"
    by (simp add: batchesOf_def dispatched_def exampleClient_fields batchRanges.simps)
  have m: "foldl (batchMerge exampleBackend [''a'', ''b'', ''c'', ''a'', ''d'']) Map.empty [(0, 2)]
           = [''a'' \<mapsto> stringToBytes ''x'']"
    by (simp add: batchMerge_def batchKeys_def exampleBackend_def)
  have bs: "0 < GetMultiBatchSize (config exampleClient)" by (simp add: exampleClient_fields)
  from GetMulti_cancelled[OF repliesFit_example k bs, of "\<lambda>i. i < 2"]
  obtain st where
    "GetMulti exampleClient (\<lambda>i. i < 2) exampleBackend [''a'', ''b'', ''c'', ''a'', ''d''] =
       Inr (Some (foldl (batchMerge exampleBackend [''a'', ''b'', ''c'', ''a'', ''d'']) Map.empty
         (batchesOf exampleClient (\<lambda>i. i < 2) [''a'', ''b'', ''c'', ''a'', ''d''])), st)"
    "mgetLog st = map (batchKeys [''a'', ''b'', ''c'', ''a'', ''d''])
         (batchesOf exampleClient (\<lambda>i. i < 2) [''a'', ''b'', ''c'', ''a'', ''d''])"
    by blast
  then have "\<exists>st. GetMulti exampleClient (\<lambda>i. i < 2) exampleBackend [''a'', ''b'', ''c'', ''a'', ''d''] =
            Inr (Some [''a'' \<mapsto> stringToBytes ''x''], st) \<and> mgetLog st = [[''a'', ''b'']]"
    unfolding b m by (simp add: batchKeys_def)
  then show ?thesis
    by (simp add: repliesFit_example exampleClient_fields ex_ranges)
qed

subsection \<open>\<open>stringToBytes\<close> against the copying conversion\<close>

text \<open>
  C10: for every string \<open>s\<close>, \<open>stringToBytes s\<close> is the list of the bytes of \<open>s\<close>, as the
  copying conversion gives it: it has the length of \<open>s\<close> and its \<open>i\<close>-th element is the
  \<open>i\<close>-th byte of \<open>s\<close>. On headers: in any memory, the slice that the cast yields for a
  string header has the string's contents, its length, and that length as capacity.
  Hence, for a positive batch size, every value in a result of \<open>GetMulti\<close> is the bytes
  of a string that the server replied for that key.
\<close>

theorem stringToBytes_copy:
  "stringToBytes s = bytes_of_string s \<and>
   length (stringToBytes s) = length s \<and>
   (\<forall>i<length s. stringToBytes s ! i = of_char (s ! i)) \<and>
   slice_contents mem (stringToBytes_hdr h) = string_contents mem h \<and>
   sl_Len (stringToBytes_hdr h) = str_Len h \<and>
   sl_Cap (stringToBytes_hdr h) = str_Len h \<and>
   (0 < GetMultiBatchSize (config c) \<longrightarrow>
    GetMulti c ctx MGet keys = Inr (Some res, st) \<longrightarrow> res k = Some v \<longrightarrow>
      (\<exists>r\<in>set (batchesOf c ctx keys). \<exists>p s'. p < length (batchKeys keys r) \<and>
         batchKeys keys r ! p = k \<and> stringReply MGet keys r p = Some s' \<and>
         v = bytes_of_string s'))"
proof -
  have a: "stringToBytes s = bytes_of_string s" by (rule stringToBytes_eq)
  have b: "length (stringToBytes s) = length s" by (simp add: a bytes_of_string_def)
  have c: "\<forall>i<length s. stringToBytes s ! i = of_char (s ! i)"
    by (simp add: a bytes_of_string_def)
  have d: "slice_contents mem (stringToBytes_hdr h) = string_contents mem h"
    by (rule slice_contents_cast)
  have e: "sl_Len (stringToBytes_hdr h) = str_Len h" "sl_Cap (stringToBytes_hdr h) = str_Len h"
    by (simp_all add: stringToBytes_hdr_def as_slice_def struct_words_def)
  have f: "0 < GetMultiBatchSize (config c) \<longrightarrow>
      GetMulti c ctx MGet keys = Inr (Some res, st) \<longrightarrow> res k = Some v \<longrightarrow>
      (\<exists>r\<in>set (batchesOf c ctx keys). \<exists>p s'. p < length (batchKeys keys r) \<and>
         batchKeys keys r ! p = k \<and> stringReply MGet keys r p = Some s' \<and>
         v = bytes_of_string s')"
  proof (intro impI)
    assume g: "GetMulti c ctx MGet keys = Inr (Some res, st)" and v: "res k = Some v"
    from g have ne: "keys \<noteq> []" by (auto simp: GetMulti_def)
    from GetMulti_Inr[OF g ne] have
      "res = putAll Map.empty (concat (map (batchHits MGet keys) (batchesOf c ctx keys)))" by simp
    with v have "(k, v) \<in> set (concat (map (batchHits MGet keys) (batchesOf c ctx keys)))"
      by (auto dest: putAll_Some)
    then obtain r where "r \<in> set (batchesOf c ctx keys)" "(k, v) \<in> set (batchHits MGet keys r)"
      by auto
    then show "\<exists>r\<in>set (batchesOf c ctx keys). \<exists>p s'. p < length (batchKeys keys r) \<and>
         batchKeys keys r ! p = k \<and> stringReply MGet keys r p = Some s' \<and>
         v = bytes_of_string s'"
      unfolding batchHits_iff stringToBytes_eq by blast
  qed
  from a b c d e f show ?thesis by blast
qed

theorem stringToBytes_copy_witness:
  "0 < GetMultiBatchSize (config exampleClient) \<and>
   GetMulti exampleClient (\<lambda>i. True) exampleBackend [''a'', ''b'', ''c'', ''a'', ''d''] =
     Inr (Some [''a'' \<mapsto> stringToBytes ''x''],
       \<lparr>results = [''a'' \<mapsto> stringToBytes ''x''], operations = 3, dataSize = [1, 0],
        mgetLog = [[''a'', ''b''], [''c'', ''a''], [''d'']], warns = 2\<rparr>) \<and>
   [''a'' \<mapsto> stringToBytes ''x''] ''a'' = Some (stringToBytes ''x'') \<and>
   stringToBytes ''x'' = bytes_of_string ''x'' \<and>
   length (stringToBytes ''x'') = 1 \<and>
   (\<exists>r\<in>set (batchesOf exampleClient (\<lambda>i. True) [''a'', ''b'', ''c'', ''a'', ''d'']).
      \<exists>p s'. p < length (batchKeys [''a'', ''b'', ''c'', ''a'', ''d''] r) \<and>
         batchKeys [''a'', ''b'', ''c'', ''a'', ''d''] r ! p = ''a'' \<and>
         stringReply exampleBackend [''a'', ''b'', ''c'', ''a'', ''d''] r p = Some s' \<and>
         stringToBytes ''x'' = bytes_of_string s')"
proof -
  note t = stringToBytes_copy[of "''x''" "\<lambda>a. 0" "\<lparr>str_Data = 0, str_Len = 0\<rparr>" exampleClient
      "\<lambda>i. True" exampleBackend
      "[''a'', ''b'', ''c'', ''a'', ''d'']" "[''a'' \<mapsto> stringToBytes ''x'']"
      "\<lparr>results = [''a'' \<mapsto> stringToBytes ''x''], operations = 3, dataSize = [1, 0],
        mgetLog = [[''a'', ''b''], [''c'', ''a''], [''d'']], warns = 2\<rparr>" "''a''" "stringToBytes ''x''"]
  have v: "[''a'' \<mapsto> stringToBytes ''x''] ''a'' = Some (stringToBytes ''x'')" by simp
  from t have a: "stringToBytes ''x'' = bytes_of_string ''x''"
    and b: "length (stringToBytes ''x'') = length ''x''" by blast+
  have bs: "0 < GetMultiBatchSize (config exampleClient)" by (simp add: exampleClient_fields)
  from t bs ex_run v have
    "\<exists>r\<in>set (batchesOf exampleClient (\<lambda>i. True) [''a'', ''b'', ''c'', ''a'', ''d'']).
      \<exists>p s'. p < length (batchKeys [''a'', ''b'', ''c'', ''a'', ''d''] r) \<and>
         batchKeys [''a'', ''b'', ''c'', ''a'', ''d''] r ! p = ''a'' \<and>
         stringReply exampleBackend [''a'', ''b'', ''c'', ''a'', ''d''] r p = Some s' \<and>
         stringToBytes ''x'' = bytes_of_string s'"
    by blast
  with bs ex_run v a b show ?thesis by simp
qed

subsection \<open>Validation and construction\<close>

lemma NewRedisClient_Inl:
  "(\<exists>e. NewRedisClient ext name cfg = Inl e) \<longleftrightarrow>
   TLSEnabled cfg \<and> (\<exists>e. GetTLSConfig ext (TLS cfg) = Inl e)"
  by (auto simp: NewRedisClient_def Let_def split: sum.splits)

lemma NewRedisClient_Inr:
  assumes "NewRedisClient ext name cfg = Inr c"
  shows "config c = cfg"
    "base c = newBaseClient (word_of_int (MaxItemSize cfg)) (MaxAsyncBufferSize cfg) (MaxAsyncConcurrency cfg)"
    "getMultiGate c = (if 0 < MaxGetMultiConcurrency cfg then Some (gate_New (MaxGetMultiConcurrency cfg)) else None)"
  using assms by (auto simp: NewRedisClient_def Let_def split: sum.splits if_splits)

text \<open>
  C2, as amended: \<open>Validate\<close> returns an error exactly when the endpoint string is empty
  or \<open>MaxAsyncConcurrency\<close> is not positive: the no-endpoint error in the first case, the
  not-positive error in the second when the endpoint is not empty. \<open>NewRedisClient\<close>
  does not run this check: it fails exactly when TLS is enabled and the TLS configuration
  cannot be built. A client made from a configuration that \<open>Validate\<close> accepts has a
  positive async concurrency.
\<close>

theorem Validate_and_construction:
  "(Validate ext cfg \<noteq> None \<longleftrightarrow>
      Endpoint_String ext (Endpoint cfg) = [] \<or> MaxAsyncConcurrency cfg \<le> 0) \<and>
   (Validate ext cfg = Some errRedisConfigNoEndpoint \<longleftrightarrow> Endpoint_String ext (Endpoint cfg) = []) \<and>
   (Validate ext cfg = Some errRedisMaxAsyncConcurrencyNotPositive \<longleftrightarrow>
      Endpoint_String ext (Endpoint cfg) \<noteq> [] \<and> MaxAsyncConcurrency cfg \<le> 0) \<and>
   ((\<exists>e. NewRedisClient ext name cfg = Inl e) \<longleftrightarrow>
      TLSEnabled cfg \<and> (\<exists>e. GetTLSConfig ext (TLS cfg) = Inl e)) \<and>
   (Validate ext cfg = None \<longrightarrow> NewRedisClient ext name cfg = Inr c \<longrightarrow>
      0 < concurrency (asyncQueue (base c)))"
proof -
  have v: "Validate ext cfg = None \<longrightarrow> NewRedisClient ext name cfg = Inr c \<longrightarrow>
      0 < concurrency (asyncQueue (base c))"
  proof (intro impI)
    assume a: "Validate ext cfg = None" and n: "NewRedisClient ext name cfg = Inr c"
    from a have "0 < MaxAsyncConcurrency cfg" by (auto simp: Validate_def split: if_splits)
    with NewRedisClient_Inr(2)[OF n] show "0 < concurrency (asyncQueue (base c))"
      by (simp add: newBaseClient_def newAsyncQueue_def)
  qed
  show ?thesis
    using v NewRedisClient_Inl[of ext name cfg] by (auto simp: Validate_def)
qed

theorem Validate_and_construction_witness:
  "Validate exampleExt exampleConfig = None \<and>
   NewRedisClient exampleExt ''example'' exampleConfig = Inr exampleClient \<and>
   0 < concurrency (asyncQueue (base exampleClient))"
proof -
  have a: "Validate exampleExt exampleConfig = None"
    by (simp add: Validate_def exampleExt_def exampleConfig_def)
  have b: "NewRedisClient exampleExt ''example'' exampleConfig = Inr exampleClient"
    by (simp add: exampleClient_def NewRedisClient_def exampleExt_def exampleConfig_def)
  from Validate_and_construction[of exampleExt exampleConfig "''example''" exampleClient] a b
  show ?thesis by simp
qed

text \<open>
  C2 as stated fails: for a configuration with \<open>MaxAsyncConcurrency = 0\<close>, and for one
  with an empty endpoint, \<open>Validate\<close> returns its error, and \<open>NewRedisClient\<close> makes a
  client all the same.
\<close>

theorem NewRedisClient_not_guarded:
  "Validate exampleExt (exampleConfig\<lparr>MaxAsyncConcurrency := 0\<rparr>) =
     Some errRedisMaxAsyncConcurrencyNotPositive \<and>
   (case NewRedisClient exampleExt ''example'' (exampleConfig\<lparr>MaxAsyncConcurrency := 0\<rparr>) of
      Inl e \<Rightarrow> False
    | Inr c \<Rightarrow> concurrency (asyncQueue (base c)) = 0) \<and>
   Validate exampleExt (exampleConfig\<lparr>Endpoint := ''''\<rparr>) = Some errRedisConfigNoEndpoint \<and>
   (case NewRedisClient exampleExt ''example'' (exampleConfig\<lparr>Endpoint := ''''\<rparr>) of
      Inl e \<Rightarrow> False
    | Inr c \<Rightarrow> opt_Addrs (conn_opts (conn c)) = [''''])"
  by (simp add: Validate_def NewRedisClient_def exampleExt_def exampleConfig_def
      newBaseClient_def newAsyncQueue_def NewUniversalClient_def)

subsection \<open>Oversized items\<close>

text \<open>
  C6: when the maximum item size of the client is positive and the value is longer,
  \<open>SetAsync\<close> returns the size-exceeded error and leaves the client as it was: nothing is
  enqueued, the count of enqueued tasks does not move, and no backend call can follow
  from the call. When the maximum item size is 0, \<open>SetAsync\<close> never returns the
  size-exceeded error. The maximum item size of a new client is the configured
  \<open>MaxItemSize\<close>, for a value that a Go \<open>int\<close> can hold and that is not negative.
\<close>

theorem SetAsync_oversized:
  "(0 < unat (maxItemSize (base c)) \<and> unat (maxItemSize (base c)) < length v \<longrightarrow>
      SetAsync c key v ttl = (Some SizeExceededError, c)) \<and>
   (maxItemSize (base c) = 0 \<longrightarrow> fst (SetAsync c key v ttl) \<noteq> Some SizeExceededError) \<and>
   (NewRedisClient ext name cfg = Inr c' \<longrightarrow> 0 \<le> MaxItemSize cfg \<longrightarrow> MaxItemSize cfg < 2 ^ 63 \<longrightarrow>
      unat (maxItemSize (base c')) = nat (MaxItemSize cfg))"
proof -
  have a: "0 < unat (maxItemSize (base c)) \<and> unat (maxItemSize (base c)) < length v \<longrightarrow>
      SetAsync c key v ttl = (Some SizeExceededError, c)"
    by (auto simp: SetAsync_def setAsync_def permits_def unat_eq_0)
  have b: "maxItemSize (base c) = 0 \<longrightarrow> fst (SetAsync c key v ttl) \<noteq> Some SizeExceededError"
    by (auto simp: SetAsync_def setAsync_def permits_def enqueue_def split: prod.splits bool.splits)
  have d: "NewRedisClient ext name cfg = Inr c' \<longrightarrow> 0 \<le> MaxItemSize cfg \<longrightarrow> MaxItemSize cfg < 2 ^ 63 \<longrightarrow>
      unat (maxItemSize (base c')) = nat (MaxItemSize cfg)"
  proof (intro impI)
    assume n: "NewRedisClient ext name cfg = Inr c'" and r: "0 \<le> MaxItemSize cfg" "MaxItemSize cfg < 2 ^ 63"
    from NewRedisClient_Inr(2)[OF n] have "maxItemSize (base c') = word_of_int (MaxItemSize cfg)"
      by (simp add: newBaseClient_def)
    moreover from r have "take_bit 64 (MaxItemSize cfg) = MaxItemSize cfg"
      by (simp add: take_bit_int_eq_self)
    ultimately show "unat (maxItemSize (base c')) = nat (MaxItemSize cfg)"
      by (simp add: unsigned_of_int)
  qed
  from a b d show ?thesis by blast
qed

lemma exampleClient_maxItemSize: "maxItemSize (base exampleClient) = 4"
  by (simp add: exampleClient_def NewRedisClient_def exampleExt_def exampleConfig_def newBaseClient_def)

theorem SetAsync_oversized_witness:
  "0 < unat (maxItemSize (base exampleClient)) \<and>
   unat (maxItemSize (base exampleClient)) < length [1, 2, 3, 4, 5 :: byte] \<and>
   SetAsync exampleClient ''k'' [1, 2, 3, 4, 5] 60 = (Some SizeExceededError, exampleClient)"
  using SetAsync_oversized[of exampleClient "[1, 2, 3, 4, 5]" "''k''" 60 exampleExt "''example''"
      exampleConfig exampleClient]
  by (simp add: exampleClient_maxItemSize)

end
